theory Spec2Isabelle
  imports Main "HOL-Library.Sublist"
begin

section \<open>JavaScript values used by the style runtime\<close>

text \<open>
  Strings are lists of 8-bit characters. The two event names and the page-global
  registry key are built from the microfrontend name exactly as the template literals
  \<^verbatim>\<open>`${mfe}-styles`\<close> and \<^verbatim>\<open>`${mfe}-styles-request`\<close> do.
\<close>

definition styles_key :: "string \<Rightarrow> string" where
  "styles_key mfe = mfe @ ''-styles''"

definition request_key :: "string \<Rightarrow> string" where
  "request_key mfe = mfe @ ''-styles-request''"

text \<open>
  A plain object \<^verbatim>\<open>{ [_ in string]: string }\<close> is the list of its own properties in
  creation order. \<^verbatim>\<open>Object.values\<close> does not enumerate in creation order alone: the
  language lists the keys that are array indices first, in ascending numeric order, and
  the remaining string keys afterwards in creation order. An array index is a canonical
  decimal numeral (no leading zero) below \<open>2^32 - 1\<close>.
\<close>

type_synonym jsobject = "(string \<times> string) list"

definition is_digit :: "char \<Rightarrow> bool" where
  "is_digit c = (48 \<le> (of_char c :: nat) \<and> (of_char c :: nat) \<le> 57)"

definition decimal :: "string \<Rightarrow> nat" where
  "decimal k = foldl (\<lambda>n c. 10 * n + ((of_char c :: nat) - 48)) 0 k"

definition array_index :: "string \<Rightarrow> nat option" where
  "array_index k =
     (if k \<noteq> [] \<and> list_all is_digit k \<and> (hd k \<noteq> CHR ''0'' \<or> k = ''0'')
         \<and> decimal k < 2 ^ 32 - 1
      then Some (decimal k) else None)"

definition index_of :: "string \<Rightarrow> nat" where
  "index_of k = (case array_index k of Some n \<Rightarrow> n | None \<Rightarrow> 0)"

text \<open>
  \<^verbatim>\<open>Object.keys\<close> order applied to a list of property keys given in creation order.
\<close>

definition own_key_order :: "string list \<Rightarrow> string list" where
  "own_key_order ks =
     sort_key index_of (filter (\<lambda>k. array_index k \<noteq> None) ks)
     @ filter (\<lambda>k. array_index k = None) ks"

definition object_keys :: "jsobject \<Rightarrow> string list" where
  "object_keys obj = own_key_order (map fst obj)"

definition get_prop :: "jsobject \<Rightarrow> string \<Rightarrow> string" where
  "get_prop obj k = (case map_of obj k of Some v \<Rightarrow> v | None \<Rightarrow> ''undefined'')"

definition object_values :: "jsobject \<Rightarrow> string list" where
  "object_values obj = map (get_prop obj) (object_keys obj)"

text \<open>
  The assignment \<^verbatim>\<open>styles[id] = style\<close>. An existing own property keeps its place
  and takes the new value, a new key is created last. The key \<^verbatim>\<open>__proto__\<close> is
  the accessor inherited from \<^verbatim>\<open>Object.prototype\<close>: its setter ignores a string
  value, so no own property is created.
\<close>

fun put :: "string \<Rightarrow> string \<Rightarrow> jsobject \<Rightarrow> jsobject" where
  "put k v [] = [(k, v)]"
| "put k v ((k', v') # rest) =
     (if k' = k then (k, v) # rest else (k', v') # put k v rest)"

definition set_prop :: "string \<Rightarrow> string \<Rightarrow> jsobject \<Rightarrow> jsobject" where
  "set_prop k v obj = (if k = ''__proto__'' then obj else put k v obj)"

text \<open>\<^verbatim>\<open>Array.prototype.join\<close> on an array of strings.\<close>

fun join :: "string \<Rightarrow> string list \<Rightarrow> string" where
  "join sep [] = []"
| "join sep [x] = x"
| "join sep (x # y # rest) = x @ sep @ join sep (y # rest)"

section \<open>The page: global registry, event listeners, style elements\<close>

text \<open>
  \<^verbatim>\<open>new Event(type)\<close> carries no detail; \<^verbatim>\<open>new CustomEvent(type, init)\<close>
  carries the detail of \<^verbatim>\<open>init\<close>, or \<^verbatim>\<open>null\<close> without one.
\<close>

datatype event = Event string | CustomEvent string "string option"

fun event_type :: "event \<Rightarrow> string" where
  "event_type (Event t) = t"
| "event_type (CustomEvent t d) = t"

text \<open>
  The text \<^verbatim>\<open>replaceChildren(e.detail)\<close> leaves in the style element: the detail
  string, or the string conversion of \<^verbatim>\<open>undefined\<close> or \<^verbatim>\<open>null\<close>.
\<close>

fun detail_text :: "event \<Rightarrow> string" where
  "detail_text (Event t) = ''undefined''"
| "detail_text (CustomEvent t None) = ''null''"
| "detail_text (CustomEvent t (Some d)) = d"

text \<open>
  The two closures the code registers with \<^verbatim>\<open>addEventListener\<close>:
  \<^item> \<open>Replay mfe a sep\<close> is \<^verbatim>\<open>() => dispatchEvent(event())\<close> of \<^verbatim>\<open>dispatch\<close>; it
    captured the name \<open>mfe\<close> and the object \<^verbatim>\<open>styles\<close>, held by reference (address
    \<open>a\<close>), and joins with the separator \<open>sep\<close> of the implementation that created it;
  \<^item> \<open>Subscriber el\<close> is \<^verbatim>\<open>e => ref.deref()?.replaceChildren(e.detail)\<close> of
    \<^verbatim>\<open>getStyle\<close>, bound to the style element \<open>el\<close>.
\<close>

datatype listener = Replay string nat string | Subscriber nat

text \<open>
  The page state: the registry slots of \<^verbatim>\<open>window\<close> (each holds a reference to an
  object), the object store with its allocation counter, the listeners of
  \<^verbatim>\<open>window\<close> in registration order with the event type they were registered for,
  the text of every style element created so far, and the events dispatched so far.
\<close>

record page =
  window :: "string \<rightharpoonup> nat"
  objects :: "nat \<Rightarrow> jsobject"
  fresh :: nat
  listeners :: "(string \<times> listener) list"
  elements :: "string list"
  dispatched :: "event list"

definition init_page :: page where
  "init_page = \<lparr>window = Map.empty, objects = (\<lambda>a. []), fresh = 0, listeners = [],
                 elements = [], dispatched = []\<rparr>"

definition listeners_for :: "string \<Rightarrow> page \<Rightarrow> listener list" where
  "listeners_for t p = map snd (filter (\<lambda>(t', l). t' = t) (listeners p))"

text \<open>
  \<^verbatim>\<open>dispatchEvent\<close> is synchronous: it calls, in registration order, the listeners
  registered for the event's type when the dispatch starts, and a listener may itself
  dispatch an event, which runs to completion first. The pending calls are kept as an
  explicit stack; a dispatch that never returns is the value \<open>None\<close>.
\<close>

datatype pending = Fire event | Invoke listener event

partial_function (option) run :: "pending list \<Rightarrow> page \<Rightarrow> page option" where
  "run ts p =
     (case ts of
        [] \<Rightarrow> Some p
      | Fire e # rest \<Rightarrow>
          run (map (\<lambda>l. Invoke l e) (listeners_for (event_type e) p) @ rest)
              (p\<lparr>dispatched := dispatched p @ [e]\<rparr>)
      | Invoke (Subscriber el) e # rest \<Rightarrow>
          run rest (p\<lparr>elements := (elements p)[el := detail_text e]\<rparr>)
      | Invoke (Replay mfe a sep) e # rest \<Rightarrow>
          run (Fire (CustomEvent (styles_key mfe)
                       (Some (join sep (object_values (objects p a))))) # rest) p)"

definition dispatchEvent :: "event \<Rightarrow> page \<Rightarrow> page option" where
  "dispatchEvent e p = run [Fire e] p"

definition addEventListener :: "string \<Rightarrow> listener \<Rightarrow> page \<Rightarrow> page" where
  "addEventListener t l p = p\<lparr>listeners := listeners p @ [(t, l)]\<rparr>"

text \<open>
  The dispatcher. Both implementations share the body; the first joins the values with
  the empty string and reads the name from \<^verbatim>\<open>import.meta.env.MFE\<close>, the second
  takes the name as its first argument and joins with a line feed.
  \<^verbatim>\<open>window[key] ??= {}\<close> allocates the registry object only when the slot is empty,
  and only then is the replay listener registered.
\<close>

definition dispatch_with :: "string \<Rightarrow> string \<Rightarrow> string \<Rightarrow> string \<Rightarrow> page \<Rightarrow> page option" where
  "dispatch_with sep mfe ident style p =
     (let setup = (window p (styles_key mfe) = None);
          a = (case window p (styles_key mfe) of Some a' \<Rightarrow> a' | None \<Rightarrow> fresh p);
          p1 = (if setup
                then p\<lparr>window := (window p)(styles_key mfe \<mapsto> fresh p),
                       objects := (objects p)(fresh p := []),
                       fresh := Suc (fresh p)\<rparr>
                else p);
          p2 = p1\<lparr>objects := (objects p1)(a := set_prop ident style (objects p1 a))\<rparr>;
          p3 = (if setup then addEventListener (request_key mfe) (Replay mfe a sep) p2 else p2)
      in dispatchEvent (Event (request_key mfe)) p3)"

definition dispatch :: "string \<Rightarrow> string \<Rightarrow> string \<Rightarrow> page \<Rightarrow> page option" where
  "dispatch mfe ident style p = dispatch_with [] mfe ident style p"

definition dispatch2 :: "string \<Rightarrow> string \<Rightarrow> string \<Rightarrow> page \<Rightarrow> page option" where
  "dispatch2 name ident style p = dispatch_with [CHR 0x0A] name ident style p"

text \<open>
  \<^verbatim>\<open>getStyle\<close>: a new, empty style element, a listener for the styles event bound to
  it, then the replay request. The result is the element and the page afterwards. The
  element is referenced by its index in \<open>elements\<close>; the weak reference of the listener
  is live as long as the page has the element, and the reclamation of elements with the
  abort of their listeners is not part of this model.
\<close>

definition getStyle :: "string \<Rightarrow> page \<Rightarrow> (nat \<times> page) option" where
  "getStyle mfe p =
     (let style = length (elements p);
          p1 = p\<lparr>elements := elements p @ [[]]\<rparr>;
          p2 = addEventListener (styles_key mfe) (Subscriber style) p1
      in map_option (Pair style) (dispatchEvent (CustomEvent (request_key mfe) None) p2))"

text \<open>
  What a page has seen: calls of the dispatcher (a removal is the call with the empty
  text) and creations of style elements, for any microfrontend names, all bundles built
  by the implementation with separator \<open>sep\<close>.
\<close>

datatype action = Publish string string string | Subscribe string

fun step :: "string \<Rightarrow> action \<Rightarrow> page \<Rightarrow> page option" where
  "step sep (Publish mfe ident style) p = dispatch_with sep mfe ident style p"
| "step sep (Subscribe mfe) p = map_option snd (getStyle mfe p)"

fun exec :: "string \<Rightarrow> action list \<Rightarrow> page \<Rightarrow> page option" where
  "exec sep [] p = Some p"
| "exec sep (x # xs) p = (case step sep x p of None \<Rightarrow> None | Some p' \<Rightarrow> exec sep xs p')"

text \<open>The registry of a name, with a missing one read as the empty object.\<close>

definition registry :: "string \<Rightarrow> page \<Rightarrow> jsobject" where
  "registry mfe p = (case window p (styles_key mfe) of None \<Rightarrow> [] | Some a \<Rightarrow> objects p a)"

definition aggregate :: "string \<Rightarrow> string \<Rightarrow> page \<Rightarrow> string" where
  "aggregate sep mfe p = join sep (object_values (registry mfe p))"

section \<open>Strings and regular expressions of the build stages\<close>

text \<open>
  The characters \<^verbatim>\<open>.\<close> does not match (line terminators) and the characters
  \<^verbatim>\<open>trim\<close> strips (white space and line terminators), as far as they are 8-bit
  characters.
\<close>

definition line_terminator :: "char \<Rightarrow> bool" where
  "line_terminator c = (c = CHR 0x0A \<or> c = CHR 0x0D)"

definition white_space :: "char \<Rightarrow> bool" where
  "white_space c = (c \<in> set [CHR 0x09, CHR 0x0A, CHR 0x0B, CHR 0x0C, CHR 0x0D, CHR 0x20, CHR 0xA0])"

definition trim :: "string \<Rightarrow> string" where
  "trim s = rev (dropWhile white_space (rev (dropWhile white_space s)))"

definition ends_with :: "string \<Rightarrow> string \<Rightarrow> bool" where
  "ends_with s suf = suffix suf s"

text \<open>
  The regular expressions of the source are sequences of literal text, \<^verbatim>\<open>.+\<close>
  (greedy) and \<^verbatim>\<open>.+?\<close> (lazy). \<open>match_here\<close> is the backtracking matcher at the
  start of a string: it returns the length of the match the engine finds first, trying
  the longest run first for a greedy quantifier and the shortest first for a lazy one.
\<close>

datatype item = Lit string | AnyPlus | AnyPlusLazy

definition dot_run :: "string \<Rightarrow> nat" where
  "dot_run s = length (takeWhile (\<lambda>c. \<not> line_terminator c) s)"

fun first_some :: "(nat \<Rightarrow> nat option) \<Rightarrow> nat list \<Rightarrow> nat option" where
  "first_some f [] = None"
| "first_some f (k # ks) = (case f k of Some n \<Rightarrow> Some n | None \<Rightarrow> first_some f ks)"

primrec match_here :: "item list \<Rightarrow> string \<Rightarrow> nat option" where
  "match_here [] s = Some 0"
| "match_here (it # rest) s =
     (case it of
        Lit l \<Rightarrow>
          if prefix l s then map_option (\<lambda>n. length l + n) (match_here rest (drop (length l) s))
          else None
      | AnyPlus \<Rightarrow>
          first_some (\<lambda>k. map_option (\<lambda>n. k + n) (match_here rest (drop k s)))
            (rev [1..<Suc (dot_run s)])
      | AnyPlusLazy \<Rightarrow>
          first_some (\<lambda>k. map_option (\<lambda>n. k + n) (match_here rest (drop k s)))
            [1..<Suc (dot_run s)])"

text \<open>
  The leftmost match: the text before it, the matched text and the text after it.
\<close>

fun search :: "item list \<Rightarrow> string \<Rightarrow> (string \<times> string \<times> string) option" where
  "search re [] = (case match_here re [] of Some n \<Rightarrow> Some ([], [], []) | None \<Rightarrow> None)"
| "search re (c # cs) =
     (case match_here re (c # cs) of
        Some n \<Rightarrow> Some ([], take n (c # cs), drop n (c # cs))
      | None \<Rightarrow> map_option (\<lambda>(b, m, a). (c # b, m, a)) (search re cs))"

text \<open>
  A replacement string is a template: \<^verbatim>\<open>$$\<close> stands for a dollar sign, \<^verbatim>\<open>$&\<close>
  for the matched text, \<^verbatim>\<open>$`\<close> for the text before the match and \<^verbatim>\<open>$'\<close> for the
  text after it. The patterns of the source have no capture groups, so every other
  dollar sign stands for itself.
\<close>

fun get_substitution :: "string \<Rightarrow> string \<Rightarrow> string \<Rightarrow> string \<Rightarrow> string" where
  "get_substitution m b a [] = []"
| "get_substitution m b a [c] = [c]"
| "get_substitution m b a (c # d # r) =
     (if c = CHR ''$'' \<and> d = CHR ''$'' then CHR ''$'' # get_substitution m b a r
      else if c = CHR ''$'' \<and> d = CHR ''&'' then m @ get_substitution m b a r
      else if c = CHR ''$'' \<and> d = CHR 0x60 then b @ get_substitution m b a r
      else if c = CHR ''$'' \<and> d = CHR 0x27 then a @ get_substitution m b a r
      else c # get_substitution m b a (d # r))"

text \<open>
  \<^verbatim>\<open>String.prototype.replace\<close> with a pattern without the global flag, or with a
  string to search for (\<open>[Lit s]\<close>): only the first match is replaced.
\<close>

definition replace_first :: "item list \<Rightarrow> string \<Rightarrow> string \<Rightarrow> string" where
  "replace_first re template s =
     (case search re s of
        None \<Rightarrow> s
      | Some (b, m, a) \<Rightarrow> b @ get_substitution m b a template @ a)"

text \<open>
  A replacement string without any of the four patterns stands for itself, whatever
  the match is.
\<close>

fun no_replacement_pattern :: "string \<Rightarrow> bool" where
  "no_replacement_pattern [] = True"
| "no_replacement_pattern [c] = True"
| "no_replacement_pattern (c # d # r) =
     (if c = CHR ''$'' \<and> d \<in> set [CHR ''$'', CHR ''&'', CHR 0x60, CHR 0x27] then False
      else no_replacement_pattern (d # r))"

text \<open>
  \<^verbatim>\<open>replaceAll(re, '')\<close> with a global pattern: scanning from the left, every match
  is dropped and the scan goes on behind it. The second argument counts the characters
  of the current match still to be dropped.
\<close>

fun remove_matches :: "item list \<Rightarrow> nat \<Rightarrow> string \<Rightarrow> string" where
  "remove_matches re k [] = []"
| "remove_matches re (Suc k) (c # cs) = remove_matches re k cs"
| "remove_matches re 0 (c # cs) =
     (case match_here re (c # cs) of
        Some (Suc n) \<Rightarrow> remove_matches re n cs
      | Some 0 \<Rightarrow> c # remove_matches re 0 cs
      | None \<Rightarrow> c # remove_matches re 0 cs)"

section \<open>The transform stage\<close>

text \<open>
  \<^verbatim>\<open>/__vite__updateStyle\(.+?\)/\<close> and \<^verbatim>\<open>/__vite__removeStyle\(.+?\)/\<close>.
\<close>

definition update_pattern :: "item list" where
  "update_pattern = [Lit ''__vite__updateStyle('', AnyPlusLazy, Lit '')'']"

definition remove_pattern :: "item list" where
  "remove_pattern = [Lit ''__vite__removeStyle('', AnyPlusLazy, Lit '')'']"

text \<open>
  The two replacement strings of the first implementation. \<open>dispatch_src\<close> is the text
  \<^verbatim>\<open>${dispatch}\<close>, the source of the dispatcher function.
\<close>

definition update_call :: "string \<Rightarrow> string" where
  "update_call dispatch_src = '';('' @ dispatch_src @ '')(__vite__id,__vite__css)''"

definition remove_call :: "string \<Rightarrow> string" where
  "remove_call dispatch_src = ''('' @ dispatch_src @ '')(__vite__id,'' @ [CHR 0x27, CHR 0x27] @ '')''"

definition transform :: "string \<Rightarrow> string \<Rightarrow> string" where
  "transform dispatch_src code =
     replace_first remove_pattern (remove_call dispatch_src)
       (replace_first update_pattern (update_call dispatch_src) code)"

text \<open>The second implementation passes the name as a first, literal argument.\<close>

definition update_call2 :: "string \<Rightarrow> string \<Rightarrow> string" where
  "update_call2 dispatch_src name =
     '';('' @ dispatch_src @ '')(`'' @ name @ ''`,__vite__id,__vite__css)''"

definition remove_call2 :: "string \<Rightarrow> string \<Rightarrow> string" where
  "remove_call2 dispatch_src name =
     ''('' @ dispatch_src @ '')(`'' @ name @ ''`,__vite__id,'' @ [CHR 0x27, CHR 0x27] @ '')''"

definition transform2 :: "string \<Rightarrow> string \<Rightarrow> string \<Rightarrow> string" where
  "transform2 dispatch_src name code =
     replace_first remove_pattern (remove_call2 dispatch_src name)
       (replace_first update_pattern (update_call2 dispatch_src name) code)"

text \<open>
  The text of the dispatcher function of each implementation, which
  \<^verbatim>\<open>${dispatch}\<close> puts into the replacement strings: the function as the source
  writes it, without the type annotations and up to the indentation of its lines.
\<close>

definition dispatch_source :: string where
  "dispatch_source =
     ''(id, style) => {'' @ [CHR 0x0A] @
     ''    const mfe = import.meta.env.MFE'' @ [CHR 0x0A] @
     ''    const setup = !window[`${mfe}-styles`]'' @ [CHR 0x0A] @
     ''    const styles = (window[`${mfe}-styles`] ??= {})'' @ [CHR 0x0A] @
     ''    styles[id] = style'' @ [CHR 0x0A] @
     ''    const event = () => new CustomEvent(`${mfe}-styles`, { detail: Object.values(styles).join(''
       @ [CHR 0x27, CHR 0x27] @ '') })'' @ [CHR 0x0A] @
     ''    if (setup) addEventListener(`${mfe}-styles-request`, () => dispatchEvent(event()))'' @ [CHR 0x0A] @
     ''    dispatchEvent(new Event(`${mfe}-styles-request`))'' @ [CHR 0x0A] @
     ''}''"

definition dispatch_source2 :: string where
  "dispatch_source2 =
     ''(name, id, style) => {'' @ [CHR 0x0A] @
     ''    const setup = !window[`${name}-styles`]'' @ [CHR 0x0A] @
     ''    const styles = (window[`${name}-styles`] ??= {})'' @ [CHR 0x0A] @
     ''    styles[id] = style'' @ [CHR 0x0A] @
     ''    const event = () => new CustomEvent(`${name}-styles`, { detail: Object.values(styles).join(''
       @ [CHR 0x27, CHR 0x5C] @ ''n'' @ [CHR 0x27] @ '') })'' @ [CHR 0x0A] @
     ''    if (setup) addEventListener(`${name}-styles-request`, () => dispatchEvent(event()))'' @ [CHR 0x0A] @
     ''    dispatchEvent(new Event(`${name}-styles-request`))'' @ [CHR 0x0A] @
     ''}''"

text \<open>
  The transform read as a rewrite of call expressions, to be compared with
  \<open>replace_first\<close> on the two patterns. A call opening \<open>l\<close>, the function name with the opening parenthesis,
  starts a call expression at the head of a text when it is followed, before the end of
  the line, by one character and, behind that character, a closing parenthesis; the
  expression ends with the first closing parenthesis behind that character, and
  \<open>after_call\<close> is the text behind it. \<open>rewrite_first_call\<close> puts the new text in
  place of the first call expression of a text, scanning from the left, and leaves a
  text without a call expression as it is.
\<close>

definition call_at :: "string \<Rightarrow> string \<Rightarrow> bool" where
  "call_at l t =
     (if prefix l t
      then CHR '')'' \<in> set (tl (takeWhile (\<lambda>c. \<not> line_terminator c) (drop (length l) t)))
      else False)"

definition after_call :: "string \<Rightarrow> string \<Rightarrow> string" where
  "after_call l t = tl (dropWhile (\<lambda>c. c \<noteq> CHR '')'') (tl (drop (length l) t)))"

fun rewrite_first_call :: "string \<Rightarrow> string \<Rightarrow> string \<Rightarrow> string" where
  "rewrite_first_call l new [] = []"
| "rewrite_first_call l new (c # cs) =
     (if call_at l (c # cs) then new @ after_call l (c # cs)
      else c # rewrite_first_call l new cs)"

text \<open>
  The page runs the text the transform wrote. A statement of the written shape is the
  dispatcher's text in parentheses applied to a list of arguments separated by commas,
  behind an optional semicolon. An argument is the empty string literal or an
  identifier bound in the module (\<^verbatim>\<open>__vite__id\<close>, \<^verbatim>\<open>__vite__css\<close>); an
  unbound identifier throws (\<open>None\<close>). The function the dispatcher's text denotes is
  \<open>dispatch\<close>, with \<^verbatim>\<open>import.meta.env.MFE\<close> defined as the name of the
  microfrontend, and it is called with two arguments.
\<close>

fun split_commas :: "string \<Rightarrow> string list" where
  "split_commas [] = [[]]"
| "split_commas (c # cs) =
     (if c = CHR '','' then [] # split_commas cs
      else (case split_commas cs of a # as \<Rightarrow> (c # a) # as | [] \<Rightarrow> [[c]]))"

definition call_arguments :: "string \<Rightarrow> string \<Rightarrow> string list option" where
  "call_arguments callee stmt =
     (let call = (if take 1 stmt = '';'' then tl stmt else stmt);
          opening = ''('' @ callee @ '')(''
      in if prefix opening call \<and> suffix '')'' call \<and> length opening < length call
         then Some (split_commas (butlast (drop (length opening) call)))
         else None)"

definition argument_value :: "(string \<times> string) list \<Rightarrow> string \<Rightarrow> string option" where
  "argument_value bindings a = (if a = [CHR 0x27, CHR 0x27] then Some [] else map_of bindings a)"

definition run_call ::
  "string \<Rightarrow> string \<Rightarrow> (string \<times> string) list \<Rightarrow> string \<Rightarrow> page \<Rightarrow> page option" where
  "run_call dispatch_src mfe bindings stmt p =
     (case call_arguments dispatch_src stmt of
        Some [a1, a2] \<Rightarrow>
          (case argument_value bindings a1 of
             None \<Rightarrow> None
           | Some ident \<Rightarrow>
               (case argument_value bindings a2 of
                  None \<Rightarrow> None
                | Some style \<Rightarrow> dispatch mfe ident style p))
      | _ \<Rightarrow> None)"

section \<open>The bundle rewrite stage\<close>

text \<open>
  An output of the bundle is an asset (file name, source) or a chunk (file name, name,
  code, and the set \<^verbatim>\<open>viteMetadata?.importedCss\<close> when the metadata is present). The
  bundle is the list \<^verbatim>\<open>Object.values(bundle)\<close>. The source of an asset is a string.
\<close>

datatype bundle_output =
  OutputAsset string string | OutputChunk string string string "string list option"

fun fileName :: "bundle_output \<Rightarrow> string" where
  "fileName (OutputAsset f src) = f"
| "fileName (OutputChunk f n code meta) = f"

text \<open>\<^verbatim>\<open>/<link.+href="\.\/.+\.css">/g\<close>, and the removal of its matches.\<close>

definition link_pattern :: "item list" where
  \<open>link_pattern = [Lit ''<link'', AnyPlus, Lit ''href="./'', AnyPlus, Lit ''.css">'']\<close>

definition strip_links :: "string \<Rightarrow> string" where
  "strip_links src = remove_matches link_pattern 0 src"

text \<open>
  The outputs are selected by file name alone. An output selected as HTML or as CSS is
  read through \<^verbatim>\<open>source\<close>, which a chunk does not have: the call on
  \<^verbatim>\<open>undefined\<close> throws, and the result is \<open>None\<close>.
\<close>

fun strip_html :: "bundle_output \<Rightarrow> bundle_output option" where
  "strip_html (OutputAsset f src) =
     (if ends_with f ''.html'' then Some (OutputAsset f (strip_links src)) else Some (OutputAsset f src))"
| "strip_html (OutputChunk f n code meta) =
     (if ends_with f ''.html'' then None else Some (OutputChunk f n code meta))"

text \<open>\<^verbatim>\<open>source.toString().trim().replaceAll('`', '\\`')\<close>.\<close>

definition escape_backticks :: "string \<Rightarrow> string" where
  "escape_backticks s = concat (map (\<lambda>c. if c = CHR 0x60 then [CHR 0x5C, CHR 0x60] else [c]) s)"

definition css_literal :: "string \<Rightarrow> string" where
  "css_literal src = escape_backticks (trim src)"

fun css_source :: "bundle_output \<Rightarrow> string option" where
  "css_source (OutputAsset f src) = Some (css_literal src)"
| "css_source (OutputChunk f n code meta) = None"

text \<open>
  The body of \<^verbatim>\<open>js.forEach\<close> for one output. \<open>appended\<close> builds the text put behind
  the chunk's code from the chunk's name and the joined CSS; \<open>sep\<close> joins the CSS texts.
\<close>

definition inline_css ::
  "(string \<Rightarrow> string \<Rightarrow> string) \<Rightarrow> string \<Rightarrow> bundle_output list \<Rightarrow> bundle_output
     \<Rightarrow> bundle_output option" where
  "inline_css appended sep css out =
     (case out of
        OutputAsset f src \<Rightarrow> Some out
      | OutputChunk f n code None \<Rightarrow> Some out
      | OutputChunk f n code (Some imported) \<Rightarrow>
          if \<not> ends_with f ''.js'' then Some out
          else
            let styles = filter (\<lambda>c. fileName c \<in> set imported) css in
            if styles = [] then Some out
            else (case those (map css_source styles) of
                    None \<Rightarrow> None
                  | Some texts \<Rightarrow> Some (OutputChunk f n (code @ appended n (join sep texts)) (Some []))))"

definition rewrite_bundle ::
  "(string \<Rightarrow> string \<Rightarrow> string) \<Rightarrow> string \<Rightarrow> bundle_output list
     \<Rightarrow> bundle_output list option" where
  "rewrite_bundle appended sep bundle =
     (case those (map strip_html bundle) of
        None \<Rightarrow> None
      | Some stripped \<Rightarrow>
          those (map (inline_css appended sep
                        (filter (\<lambda>out. ends_with (fileName out) ''.css'') stripped))
                     stripped))"

text \<open>
  The first implementation appends the compiled dispatcher \<open>dispatchCompiled\<close>, the
  code of the nested build, with its text \<^verbatim>\<open>(args)\<close> replaced by the two template
  literals; the replacement string is a template as well.
\<close>

definition appended_call :: "string \<Rightarrow> string \<Rightarrow> string \<Rightarrow> string" where
  "appended_call dispatchCompiled name style =
     [CHR 0x0A] @ '';'' @
     replace_first [Lit ''(args)''] (''(`'' @ name @ ''`,`'' @ style @ ''`)'') dispatchCompiled"

definition generateBundle :: "string \<Rightarrow> bundle_output list \<Rightarrow> bundle_output list option" where
  "generateBundle dispatchCompiled bundle =
     rewrite_bundle (appended_call dispatchCompiled) [] bundle"

text \<open>
  The second implementation appends the dispatcher source applied to the microfrontend
  name, the chunk name and the CSS, and joins the CSS texts with a line feed.
\<close>

definition appended_call2 :: "string \<Rightarrow> string \<Rightarrow> string \<Rightarrow> string \<Rightarrow> string" where
  "appended_call2 dispatch_src mfe name style =
     [CHR 0x0A, CHR 0x0A] @ '';('' @ dispatch_src @ '')(`'' @ mfe @ ''`,`'' @ name @ ''`,`''
       @ style @ ''`)''"

definition generateBundle2 ::
  "string \<Rightarrow> string \<Rightarrow> bundle_output list \<Rightarrow> bundle_output list option" where
  "generateBundle2 dispatch_src mfe bundle =
     rewrite_bundle (appended_call2 dispatch_src mfe) [CHR 0x0A] bundle"

text \<open>
  The value of a template literal without substitutions, given the text between its
  backticks, as the language defines it: a backslash starts an escape sequence, a
  carriage return reads as a line feed, and a bare backtick or \<^verbatim>\<open>${\<close> ends the plain
  text, in which case there is no such value (\<open>None\<close>), as for a malformed escape.
  The value is a list of UTF-16 code units, since the escapes \<^verbatim>\<open>\x\<close> and \<^verbatim>\<open>\u\<close>
  reach beyond the 8-bit characters: \<open>hex_escape\<close> gives the code units of the escape
  that starts with the letter \<open>d\<close> and the number of characters it takes behind the
  letter.
\<close>

definition hex_digit :: "char \<Rightarrow> nat option" where
  "hex_digit c =
     (let n = of_char c :: nat in
      if 48 \<le> n \<and> n \<le> 57 then Some (n - 48)
      else if 97 \<le> n \<and> n \<le> 102 then Some (n - 87)
      else if 65 \<le> n \<and> n \<le> 70 then Some (n - 55)
      else None)"

definition hex_value :: "string \<Rightarrow> nat option" where
  "hex_value s = map_option (foldl (\<lambda>v h. 16 * v + h) 0) (those (map hex_digit s))"

definition code_units :: "nat \<Rightarrow> nat list" where
  "code_units cp =
     (if cp < 0x10000 then [cp]
      else [0xD800 + (cp - 0x10000) div 0x400, 0xDC00 + (cp - 0x10000) mod 0x400])"

definition hex_escape :: "char \<Rightarrow> string \<Rightarrow> (nat list \<times> nat) option" where
  "hex_escape d r =
     (if d = CHR ''x'' then
        (if length r < 2 then None else map_option (\<lambda>v. ([v], 2)) (hex_value (take 2 r)))
      else if take 1 r = ''{'' then
        (let ds = takeWhile (\<lambda>c. c \<noteq> CHR ''}'') (tl r) in
         if ds = [] \<or> length ds = length (tl r) then None
         else case hex_value ds of
                None \<Rightarrow> None
              | Some v \<Rightarrow> if 0x10FFFF < v then None else Some (code_units v, length ds + 2))
      else if length r < 4 then None
      else map_option (\<lambda>v. ([v], 4)) (hex_value (take 4 r)))"

function (sequential) template_value :: "string \<Rightarrow> nat list option" where
  "template_value [] = Some []"
| "template_value [c] = (if c = CHR 0x5C \<or> c = CHR 0x60 then None
                         else if c = CHR 0x0D then Some [0x0A] else Some [of_char c])"
| "template_value (c # d # r) =
     (if c = CHR 0x60 then None
      else if c = CHR ''$'' \<and> d = CHR ''{'' then None
      else if c = CHR 0x0D \<and> d = CHR 0x0A then map_option ((#) 0x0A) (template_value r)
      else if c = CHR 0x0D then map_option ((#) 0x0A) (template_value (d # r))
      else if c = CHR 0x5C then
        (if d = CHR ''n'' then map_option ((#) 0x0A) (template_value r)
         else if d = CHR ''t'' then map_option ((#) 0x09) (template_value r)
         else if d = CHR ''r'' then map_option ((#) 0x0D) (template_value r)
         else if d = CHR ''b'' then map_option ((#) 0x08) (template_value r)
         else if d = CHR ''f'' then map_option ((#) 0x0C) (template_value r)
         else if d = CHR ''v'' then map_option ((#) 0x0B) (template_value r)
         else if d = CHR 0x0A then template_value r
         else if d = CHR 0x0D then
           (case r of e # r' \<Rightarrow> if e = CHR 0x0A then template_value r' else template_value r
                    | [] \<Rightarrow> Some [])
         else if d = CHR ''0'' \<and> (case r of [] \<Rightarrow> True | e # r' \<Rightarrow> \<not> is_digit e)
           then map_option ((#) 0x00) (template_value r)
         else if d = CHR ''x'' \<or> d = CHR ''u'' then
           (case hex_escape d r of
              None \<Rightarrow> None
            | Some (units, n) \<Rightarrow> map_option ((@) units) (template_value (drop n r)))
         else if is_digit d then None
         else map_option ((#) (of_char d)) (template_value r))
      else map_option ((#) (of_char c)) (template_value (d # r)))"
  by pat_completeness auto

termination
  by (relation "measure length") simp_all

text \<open>
  The sources of the CSS assets of a bundle that a set of imported file names selects,
  in bundle order, and the outputs that are assets.
\<close>

definition imported_sources :: "bundle_output list \<Rightarrow> string list \<Rightarrow> string list" where
  "imported_sources bundle imported =
     concat (map (\<lambda>out. case out of
                      OutputAsset g src \<Rightarrow>
                        if ends_with g ''.css'' \<and> g \<in> set imported then [src] else []
                    | OutputChunk g n code meta \<Rightarrow> [])
              bundle)"

definition is_asset :: "bundle_output \<Rightarrow> bool" where
  "is_asset out = (case out of OutputAsset f src \<Rightarrow> True | OutputChunk f n code meta \<Rightarrow> False)"

section \<open>The claimed and the actual aggregate of a sequence of writes\<close>

text \<open>
  The writes a history makes to the registry of one name, oldest first, as pairs of
  fragment id and text.
\<close>

fun writes :: "string \<Rightarrow> action list \<Rightarrow> (string \<times> string) list" where
  "writes m [] = []"
| "writes m (Publish m' i s # h) = (if m' = m then (i, s) # writes m h else writes m h)"
| "writes m (Subscribe m' # h) = writes m h"

text \<open>
  The order in which fragment ids were first written, and the latest text written under
  an id (empty when there is none).
\<close>

fun first_write_order :: "string list \<Rightarrow> string list" where
  "first_write_order [] = []"
| "first_write_order (i # rest) = i # filter (\<lambda>j. j \<noteq> i) (first_write_order rest)"

definition latest_text :: "(string \<times> string) list \<Rightarrow> string \<Rightarrow> string" where
  "latest_text ws i = (case map_of (rev ws) i of Some s \<Rightarrow> s | None \<Rightarrow> [])"

text \<open>
  The aggregate as the specification words it: the latest texts concatenated in
  first-write order of the fragment ids.
\<close>

definition claimed_aggregate :: "(string \<times> string) list \<Rightarrow> string" where
  "claimed_aggregate ws = concat (map (latest_text ws) (first_write_order (map fst ws)))"

text \<open>
  The aggregate in the key order of the registry object: the writes that create or
  update an own property are those under an id other than \<^verbatim>\<open>__proto__\<close>; their ids
  are listed array indices first, and the latest texts are joined with the separator.
\<close>

definition stored :: "(string \<times> string) list \<Rightarrow> (string \<times> string) list" where
  "stored ws = filter (\<lambda>(i, s). i \<noteq> ''__proto__'') ws"

definition key_order_aggregate :: "string \<Rightarrow> (string \<times> string) list \<Rightarrow> string" where
  "key_order_aggregate sep ws =
     join sep (map (latest_text (stored ws))
                 (own_key_order (first_write_order (map fst (stored ws)))))"

section \<open>Invariants of the page and closed forms of the operations\<close>

text \<open>The style elements bound to the listeners of a list, and those of one name.\<close>

fun subscriber_elements :: "listener list \<Rightarrow> nat list" where
  "subscriber_elements [] = []"
| "subscriber_elements (Subscriber el # ls) = el # subscriber_elements ls"
| "subscriber_elements (Replay m a s # ls) = subscriber_elements ls"

fun is_subscriber :: "listener \<Rightarrow> bool" where
  "is_subscriber (Subscriber el) = True"
| "is_subscriber (Replay m a s) = False"

definition subscribers :: "string \<Rightarrow> page \<Rightarrow> nat list" where
  "subscribers mfe p = subscriber_elements (listeners_for (styles_key mfe) p)"

text \<open>
  A page is well formed when every registry slot refers to an allocated object of its
  own, every replay listener is registered for the request event of its name and holds
  the object of that name's slot, every subscriber listens to a styles event and is
  bound to an existing element of its own, and a name with a registry has exactly one
  replay listener.
\<close>

definition wf :: "string \<Rightarrow> page \<Rightarrow> bool" where
  "wf sep p \<longleftrightarrow>
     (\<forall>k a. window p k = Some a \<longrightarrow> a < fresh p) \<and>
     (\<forall>k k' a. window p k = Some a \<longrightarrow> window p k' = Some a \<longrightarrow> k = k') \<and>
     (\<forall>t m a s. (t, Replay m a s) \<in> set (listeners p) \<longrightarrow>
        t = request_key m \<and> window p (styles_key m) = Some a \<and> s = sep) \<and>
     (\<forall>t el. (t, Subscriber el) \<in> set (listeners p) \<longrightarrow>
        (\<exists>m. t = styles_key m) \<and> el < length (elements p)) \<and>
     (\<forall>m a. window p (styles_key m) = Some a \<longrightarrow>
        listeners_for (request_key m) p = [Replay m a sep]) \<and>
     distinct (subscriber_elements (map snd (listeners p)))"

text \<open>Every style element shows the aggregate of the name it listens to.\<close>

definition synced :: "string \<Rightarrow> page \<Rightarrow> bool" where
  "synced sep p \<longleftrightarrow>
     (\<forall>m el. el \<in> set (subscribers m p) \<longrightarrow> elements p ! el = aggregate sep m p)"

definition good :: "string \<Rightarrow> page \<Rightarrow> bool" where
  "good sep p \<longleftrightarrow> wf sep p \<and> synced sep p"

text \<open>One styles event delivered to a list of elements.\<close>

definition deliver :: "string \<Rightarrow> nat list \<Rightarrow> string list \<Rightarrow> string list" where
  "deliver txt els es = fold (\<lambda>el es'. es'[el := txt]) els es"

text \<open>
  The page of the dispatcher just before it dispatches the request event, and the page
  it returns on a well-formed page.
\<close>

definition prepared :: "string \<Rightarrow> string \<Rightarrow> string \<Rightarrow> string \<Rightarrow> page \<Rightarrow> page" where
  "prepared sep mfe ident style p =
     (case window p (styles_key mfe) of
        Some a \<Rightarrow> p\<lparr>objects := (objects p)(a := set_prop ident style (objects p a))\<rparr>
      | None \<Rightarrow> p\<lparr>window := (window p)(styles_key mfe \<mapsto> fresh p),
                  fresh := Suc (fresh p),
                  objects := (objects p)(fresh p := set_prop ident style []),
                  listeners := listeners p @ [(request_key mfe, Replay mfe (fresh p) sep)]\<rparr>)"

definition published :: "string \<Rightarrow> string \<Rightarrow> string \<Rightarrow> string \<Rightarrow> page \<Rightarrow> page" where
  "published sep m i s p =
     (let q = prepared sep m i s p; A = aggregate sep m q
      in q\<lparr>elements := deliver A (subscribers m p) (elements p),
            dispatched := dispatched p @ [Event (request_key m), CustomEvent (styles_key m) (Some A)]\<rparr>)"

text \<open>The same for the creation of a style element.\<close>

definition attached :: "string \<Rightarrow> page \<Rightarrow> page" where
  "attached m p = p\<lparr>elements := elements p @ [[]],
                     listeners := listeners p @ [(styles_key m, Subscriber (length (elements p)))]\<rparr>"

definition subscribed :: "string \<Rightarrow> string \<Rightarrow> page \<Rightarrow> page" where
  "subscribed sep m p =
     (let q = attached m p in
      case window p (styles_key m) of
        None \<Rightarrow> q\<lparr>dispatched := dispatched p @ [CustomEvent (request_key m) None]\<rparr>
      | Some a \<Rightarrow>
          q\<lparr>elements := deliver (aggregate sep m p) (subscribers m q) (elements q),
            dispatched := dispatched p @ [CustomEvent (request_key m) None,
                            CustomEvent (styles_key m) (Some (aggregate sep m p))]\<rparr>)"

text \<open>
  What the two passes of the bundle rewrite make of one output when no output selected as
  HTML or CSS is a chunk.
\<close>

definition stripped_output :: "bundle_output \<Rightarrow> bundle_output" where
  "stripped_output out =
     (case out of
        OutputAsset f src \<Rightarrow> OutputAsset f (if ends_with f ''.html'' then strip_links src else src)
      | OutputChunk f n code meta \<Rightarrow> out)"

definition inlined_output ::
  "(string \<Rightarrow> string \<Rightarrow> string) \<Rightarrow> string \<Rightarrow> bundle_output list \<Rightarrow> bundle_output \<Rightarrow> bundle_output" where
  "inlined_output appended sep bundle out =
     (case out of
        OutputAsset f src \<Rightarrow> out
      | OutputChunk f n code None \<Rightarrow> out
      | OutputChunk f n code (Some imported) \<Rightarrow>
          if ends_with f ''.js'' \<and> imported_sources bundle imported \<noteq> []
          then OutputChunk f n
                 (code @ appended n (join sep (map css_literal (imported_sources bundle imported))))
                 (Some [])
          else out)"

section \<open>Properties of the style runtime\<close>

lemma run_Nil [simp]: "run [] p = Some p"
  by (subst run.simps) simp

lemma run_Fire:
  "run (Fire e # rest) p =
     run (map (\<lambda>l. Invoke l e) (listeners_for (event_type e) p) @ rest)
         (p\<lparr>dispatched := dispatched p @ [e]\<rparr>)"
  by (subst run.simps) simp

lemma run_Subscriber:
  "run (Invoke (Subscriber el) e # rest) p =
     run rest (p\<lparr>elements := (elements p)[el := detail_text e]\<rparr>)"
  by (subst run.simps) simp

lemma run_Replay:
  "run (Invoke (Replay mfe a sep) e # rest) p =
     run (Fire (CustomEvent (styles_key mfe)
                  (Some (join sep (object_values (objects p a))))) # rest) p"
  by (subst run.simps) simp

lemma styles_key_inj [simp]: "(styles_key m = styles_key m') = (m = m')"
  by (simp add: styles_key_def)

lemma request_key_inj [simp]: "(request_key m = request_key m') = (m = m')"
  by (simp add: request_key_def)

lemma styles_not_request [simp]: "styles_key m \<noteq> request_key m'"
proof
  assume "styles_key m = request_key m'"
  then have "last (styles_key m) = last (request_key m')" by simp
  then show False by (simp add: styles_key_def request_key_def)
qed

lemma request_not_styles [simp]: "request_key m' \<noteq> styles_key m"
  using styles_not_request [of m m'] by metis

lemma listeners_for_elements [simp]:
  "listeners_for t (p\<lparr>elements := es\<rparr>) = listeners_for t p"
  by (simp add: listeners_for_def)

lemma listeners_for_dispatched [simp]:
  "listeners_for t (p\<lparr>dispatched := d\<rparr>) = listeners_for t p"
  by (simp add: listeners_for_def)

lemma run_subscribers:
  "list_all is_subscriber ls \<Longrightarrow>
   run (map (\<lambda>l. Invoke l e) ls @ rest) p =
     run rest (p\<lparr>elements := deliver (detail_text e) (subscriber_elements ls) (elements p)\<rparr>)"
proof (induction ls arbitrary: p)
  case Nil
  then show ?case by (simp add: deliver_def)
next
  case (Cons l ls)
  then obtain el where l: "l = Subscriber el" by (cases l) auto
  from Cons.prems have "list_all is_subscriber ls" by simp
  from Cons.IH [OF this] show ?case
    by (simp add: l run_Subscriber deliver_def)
qed

lemma wf_subscribers_only:
  assumes "wf sep p"
  shows "list_all is_subscriber (listeners_for (styles_key m) p)"
proof -
  have "is_subscriber l" if "(styles_key m, l) \<in> set (listeners p)" for l
  proof (cases l)
    case (Replay m' a s)
    with that assms have "styles_key m = request_key m'" unfolding wf_def by blast
    then show ?thesis by simp
  next
    case (Subscriber el)
    then show ?thesis by simp
  qed
  then show ?thesis
    by (auto simp: listeners_for_def list_all_iff)
qed

lemma wf_no_replay:
  assumes "wf sep p" and "window p (styles_key m) = None"
  shows "listeners_for (request_key m) p = []"
proof -
  have "False" if "(request_key m, l) \<in> set (listeners p)" for l
  proof (cases l)
    case (Replay m' a s)
    with that assms(1) have "request_key m = request_key m'" and "window p (styles_key m') = Some a"
      unfolding wf_def by blast+
    with assms(2) show ?thesis by simp
  next
    case (Subscriber el)
    with that assms(1) obtain m' where "request_key m = styles_key m'"
      unfolding wf_def by blast
    then show ?thesis by simp
  qed
  then show ?thesis
    by (auto simp: listeners_for_def filter_empty_conv)
qed

lemma round_none:
  assumes "wf sep p" and "window p (styles_key m) = None" and "event_type e = request_key m"
  shows "run [Fire e] p = Some (p\<lparr>dispatched := dispatched p @ [e]\<rparr>)"
  using wf_no_replay [OF assms(1,2)] assms(3) by (simp add: run_Fire)

lemma round_some:
  assumes "wf sep p" and "window p (styles_key m) = Some a" and "event_type e = request_key m"
  shows "run [Fire e] p =
           Some (p\<lparr>elements := deliver (aggregate sep m p) (subscribers m p) (elements p),
                   dispatched := dispatched p @ [e, CustomEvent (styles_key m) (Some (aggregate sep m p))]\<rparr>)"
proof -
  from assms(1,2) have r: "listeners_for (request_key m) p = [Replay m a sep]"
    unfolding wf_def by blast
  have agg: "join sep (object_values (objects p a)) = aggregate sep m p"
    using assms(2) by (simp add: aggregate_def registry_def)
  have subs: "list_all is_subscriber (listeners_for (styles_key m) p)"
    by (rule wf_subscribers_only [OF assms(1)])
  show ?thesis
    using run_subscribers [OF subs, of "CustomEvent (styles_key m) (Some (aggregate sep m p))" "[]"
        "p\<lparr>dispatched := dispatched p @ [e, CustomEvent (styles_key m) (Some (aggregate sep m p))]\<rparr>"]
    by (simp add: run_Fire run_Replay r assms(3) agg subscribers_def)
qed

lemma dispatch_with_prepared:
  "dispatch_with sep m i s p = run [Fire (Event (request_key m))] (prepared sep m i s p)"
  by (cases "window p (styles_key m)")
     (simp_all add: dispatch_with_def prepared_def dispatchEvent_def addEventListener_def Let_def)

lemma prepared_elements [simp]: "elements (prepared sep m i s p) = elements p"
  by (simp add: prepared_def split: option.split)

lemma prepared_dispatched [simp]: "dispatched (prepared sep m i s p) = dispatched p"
  by (simp add: prepared_def split: option.split)

lemma prepared_window_some: "\<exists>a. window (prepared sep m i s p) (styles_key m) = Some a"
  by (simp add: prepared_def split: option.split)

lemma prepared_registry_same:
  "registry m (prepared sep m i s p) = set_prop i s (registry m p)"
  by (simp add: prepared_def registry_def split: option.split)

lemma prepared_registry_other:
  assumes "wf sep p" and "m' \<noteq> m"
  shows "registry m' (prepared sep m i s p) = registry m' p"
proof (cases "window p (styles_key m)")
  case None
  have "a \<noteq> fresh p" if "window p (styles_key m') = Some a" for a
    using assms(1) that unfolding wf_def by fastforce
  with None assms(2) show ?thesis
    by (auto simp: prepared_def registry_def split: option.split)
next
  case (Some a)
  have "a' \<noteq> a" if "window p (styles_key m') = Some a'" for a'
  proof
    assume "a' = a"
    with that Some assms(1) have "styles_key m' = styles_key m" unfolding wf_def by blast
    with assms(2) show False by simp
  qed
  with Some show ?thesis
    by (auto simp: prepared_def registry_def split: option.split)
qed

lemma listeners_for_append:
  "listeners_for t (p\<lparr>listeners := listeners p @ [(t', l)]\<rparr>) =
     (if t' = t then listeners_for t p @ [l] else listeners_for t p)"
  by (simp add: listeners_for_def)

lemma listeners_for_objects [simp]: "listeners_for t (p\<lparr>objects := ob\<rparr>) = listeners_for t p"
  by (simp add: listeners_for_def)

lemma listeners_for_window [simp]: "listeners_for t (p\<lparr>window := w\<rparr>) = listeners_for t p"
  by (simp add: listeners_for_def)

lemma listeners_for_fresh [simp]: "listeners_for t (p\<lparr>fresh := w\<rparr>) = listeners_for t p"
  by (simp add: listeners_for_def)

lemma prepared_listeners_styles [simp]:
  "listeners_for (styles_key m') (prepared sep m i s p) = listeners_for (styles_key m') p"
  by (simp add: prepared_def listeners_for_def split: option.split)

lemma prepared_subscribers [simp]: "subscribers m' (prepared sep m i s p) = subscribers m' p"
  by (simp add: subscribers_def)

lemma subscriber_elements_append [simp]:
  "subscriber_elements (xs @ ys) = subscriber_elements xs @ subscriber_elements ys"
  by (induction xs rule: subscriber_elements.induct) simp_all

lemma wf_prepared:
  assumes "wf sep p"
  shows "wf sep (prepared sep m i s p)"
proof (cases "window p (styles_key m)")
  case (Some a)
  then have "prepared sep m i s p = p\<lparr>objects := (objects p)(a := set_prop i s (objects p a))\<rparr>"
    by (simp add: prepared_def)
  with assms show ?thesis by (simp add: wf_def)
next
  case None
  let ?q = "prepared sep m i s p"
  have q: "?q = p\<lparr>window := (window p)(styles_key m \<mapsto> fresh p),
                  fresh := Suc (fresh p),
                  objects := (objects p)(fresh p := set_prop i s []),
                  listeners := listeners p @ [(request_key m, Replay m (fresh p) sep)]\<rparr>"
    using None by (simp add: prepared_def)
  have w1: "\<forall>k a. window p k = Some a \<longrightarrow> a < fresh p" using assms unfolding wf_def by blast
  have w2: "\<forall>k k' a. window p k = Some a \<longrightarrow> window p k' = Some a \<longrightarrow> k = k'"
    using assms unfolding wf_def by blast
  have w3: "\<forall>t m a s. (t, Replay m a s) \<in> set (listeners p) \<longrightarrow>
        t = request_key m \<and> window p (styles_key m) = Some a \<and> s = sep"
    using assms unfolding wf_def by blast
  have w4: "\<forall>t el. (t, Subscriber el) \<in> set (listeners p) \<longrightarrow>
        (\<exists>m. t = styles_key m) \<and> el < length (elements p)"
    using assms unfolding wf_def by blast
  have w5: "\<forall>m a. window p (styles_key m) = Some a \<longrightarrow>
        listeners_for (request_key m) p = [Replay m a sep]"
    using assms unfolding wf_def by blast
  have w6: "distinct (subscriber_elements (map snd (listeners p)))"
    using assms unfolding wf_def by blast
  have c1: "\<forall>k a. window ?q k = Some a \<longrightarrow> a < fresh ?q"
    using w1 by (auto simp: q less_Suc_eq)
  have c2: "\<forall>k k' a. window ?q k = Some a \<longrightarrow> window ?q k' = Some a \<longrightarrow> k = k'"
    using w1 w2 by (auto simp: q split: if_splits)
  have c3: "\<forall>t m' a s'. (t, Replay m' a s') \<in> set (listeners ?q) \<longrightarrow>
        t = request_key m' \<and> window ?q (styles_key m') = Some a \<and> s' = sep"
    using w3 None by (auto simp: q)
  have c4: "\<forall>t el. (t, Subscriber el) \<in> set (listeners ?q) \<longrightarrow>
        (\<exists>m. t = styles_key m) \<and> el < length (elements ?q)"
    using w4 by (auto simp: q)
  have c5: "\<forall>m' a. window ?q (styles_key m') = Some a \<longrightarrow>
        listeners_for (request_key m') ?q = [Replay m' a sep]"
    using w5 wf_no_replay [OF assms None] by (auto simp: q listeners_for_def)
  have c6: "distinct (subscriber_elements (map snd (listeners ?q)))"
    using w6 by (simp add: q)
  from c1 c2 c3 c4 c5 c6 show ?thesis unfolding wf_def by blast
qed

lemma length_deliver [simp]: "length (deliver txt els es) = length es"
  unfolding deliver_def by (induction els arbitrary: es) simp_all

lemma nth_deliver:
  "i < length es \<Longrightarrow> deliver txt els es ! i = (if i \<in> set els then txt else es ! i)"
  unfolding deliver_def
proof (induction els arbitrary: es)
  case Nil
  then show ?case by simp
next
  case (Cons el els)
  then show ?case by (simp add: nth_list_update)
qed

lemma deliver_idem: "deliver txt els (deliver txt els es) = deliver txt els es"
  by (rule nth_equalityI) (simp_all add: nth_deliver)

lemma mem_subscriber_elements:
  "el \<in> set (subscriber_elements (map snd ls)) \<longleftrightarrow> (\<exists>t. (t, Subscriber el) \<in> set ls)"
proof (induction ls)
  case Nil
  then show ?case by simp
next
  case (Cons x ls)
  obtain t l where x: "x = (t, l)" by (cases x)
  show ?case using Cons by (cases l) (auto simp: x)
qed

lemma mem_subscriber_elements_for:
  "el \<in> set (subscriber_elements (map snd (filter (\<lambda>(t', l). t' = t) ls)))
     \<longleftrightarrow> (t, Subscriber el) \<in> set ls"
  by (auto simp: mem_subscriber_elements)

lemma mem_subscribers:
  "el \<in> set (subscribers m p) \<longleftrightarrow> (styles_key m, Subscriber el) \<in> set (listeners p)"
  by (simp add: subscribers_def listeners_for_def mem_subscriber_elements_for)

lemma distinct_subscriber_type:
  "distinct (subscriber_elements (map snd ls)) \<Longrightarrow> (t, Subscriber el) \<in> set ls \<Longrightarrow>
   (t', Subscriber el) \<in> set ls \<Longrightarrow> t = t'"
proof (induction ls)
  case Nil
  then show ?case by simp
next
  case (Cons x ls)
  obtain u l where x: "x = (u, l)" by (cases x)
  show ?case
  proof (cases l)
    case (Replay m a s)
    with Cons x show ?thesis by auto
  next
    case (Subscriber el')
    with Cons x show ?thesis by (auto simp: mem_subscriber_elements)
  qed
qed

lemma wf_subscribers_disjoint:
  assumes "wf sep p" and "el \<in> set (subscribers m p)" and "el \<in> set (subscribers m' p)"
  shows "m = m'"
proof -
  from assms(1) have "distinct (subscriber_elements (map snd (listeners p)))"
    unfolding wf_def by blast
  from distinct_subscriber_type [OF this] assms(2,3) have "styles_key m = styles_key m'"
    unfolding mem_subscribers by blast
  then show ?thesis by simp
qed

lemma wf_subscribers_bound:
  assumes "wf sep p" and "el \<in> set (subscribers m p)"
  shows "el < length (elements p)"
  using assms unfolding mem_subscribers wf_def by blast

lemma wf_elements:
  "length es = length (elements p) \<Longrightarrow> wf sep (p\<lparr>elements := es\<rparr>) = wf sep p"
  by (simp add: wf_def listeners_for_def)

lemma wf_dispatched [simp]: "wf sep (p\<lparr>dispatched := d\<rparr>) = wf sep p"
  by (simp add: wf_def listeners_for_def)

lemma registry_elements [simp]: "registry m (p\<lparr>elements := es\<rparr>) = registry m p"
  by (simp add: registry_def split: option.split)

lemma registry_dispatched [simp]: "registry m (p\<lparr>dispatched := d\<rparr>) = registry m p"
  by (simp add: registry_def split: option.split)

lemma aggregate_elements [simp]: "aggregate sep m (p\<lparr>elements := es\<rparr>) = aggregate sep m p"
  by (simp add: aggregate_def)

lemma aggregate_dispatched [simp]: "aggregate sep m (p\<lparr>dispatched := d\<rparr>) = aggregate sep m p"
  by (simp add: aggregate_def)

lemma subscribers_elements [simp]: "subscribers m (p\<lparr>elements := es\<rparr>) = subscribers m p"
  by (simp add: subscribers_def)

lemma subscribers_dispatched [simp]: "subscribers m (p\<lparr>dispatched := d\<rparr>) = subscribers m p"
  by (simp add: subscribers_def)

lemma dispatch_with_published:
  assumes "wf sep p"
  shows "dispatch_with sep m i s p = Some (published sep m i s p)"
proof -
  let ?q = "prepared sep m i s p"
  obtain a where a: "window ?q (styles_key m) = Some a"
    using prepared_window_some by blast
  have "event_type (Event (request_key m)) = request_key m" by simp
  from round_some [OF wf_prepared [OF assms] a this]
  show ?thesis
    by (simp add: dispatch_with_prepared published_def Let_def)
qed

lemma published_wf:
  assumes "wf sep p"
  shows "wf sep (published sep m i s p)"
  using wf_prepared [OF assms, of m i s]
  by (simp add: published_def Let_def wf_elements)

lemma published_registry_same:
  "registry m (published sep m i s p) = set_prop i s (registry m p)"
  by (simp add: published_def Let_def prepared_registry_same)

lemma published_registry_other:
  "wf sep p \<Longrightarrow> m' \<noteq> m \<Longrightarrow> registry m' (published sep m i s p) = registry m' p"
  by (simp add: published_def Let_def prepared_registry_other)

lemma published_subscribers [simp]:
  "subscribers m' (published sep m i s p) = subscribers m' p"
  by (simp add: published_def Let_def)

lemma published_aggregate:
  "aggregate sep m (published sep m i s p) = aggregate sep m (prepared sep m i s p)"
  by (simp add: published_def Let_def)

lemma published_elements:
  "elements (published sep m i s p) =
     deliver (aggregate sep m (published sep m i s p)) (subscribers m p) (elements p)"
  by (simp add: published_def Let_def)

lemma published_dispatched:
  "dispatched (published sep m i s p) =
     dispatched p @ [Event (request_key m),
                     CustomEvent (styles_key m) (Some (aggregate sep m (published sep m i s p)))]"
  by (simp add: published_def Let_def)

lemma published_synced:
  assumes "wf sep p" and "synced sep p"
  shows "synced sep (published sep m i s p)"
  unfolding synced_def
proof (intro allI impI)
  fix m' el
  let ?r = "published sep m i s p"
  assume "el \<in> set (subscribers m' ?r)"
  then have el: "el \<in> set (subscribers m' p)" by simp
  then have bound: "el < length (elements p)" by (rule wf_subscribers_bound [OF assms(1)])
  show "elements ?r ! el = aggregate sep m' ?r"
  proof (cases "m' = m")
    case True
    with el bound show ?thesis by (simp add: published_elements nth_deliver)
  next
    case False
    with el wf_subscribers_disjoint [OF assms(1)] have "el \<notin> set (subscribers m p)" by blast
    with bound have "elements ?r ! el = elements p ! el"
      by (simp add: published_elements nth_deliver)
    also have "\<dots> = aggregate sep m' p" using assms(2) el unfolding synced_def by blast
    also have "\<dots> = aggregate sep m' ?r"
      using published_registry_other [OF assms(1) False] by (simp add: aggregate_def)
    finally show ?thesis .
  qed
qed

lemma object_values_Nil [simp]: "object_values [] = []"
  by (simp add: object_values_def object_keys_def own_key_order_def)

lemma aggregate_missing: "window p (styles_key m) = None \<Longrightarrow> aggregate sep m p = []"
  by (simp add: aggregate_def registry_def)

lemma attached_window [simp]: "window (attached m p) = window p"
  by (simp add: attached_def)

lemma attached_registry [simp]: "registry m' (attached m p) = registry m' p"
  by (simp add: attached_def registry_def split: option.split)

lemma attached_aggregate [simp]: "aggregate sep m' (attached m p) = aggregate sep m' p"
  by (simp add: aggregate_def)

lemma attached_elements [simp]: "elements (attached m p) = elements p @ [[]]"
  by (simp add: attached_def)

lemma attached_dispatched [simp]: "dispatched (attached m p) = dispatched p"
  by (simp add: attached_def)

lemma attached_listeners [simp]:
  "listeners (attached m p) = listeners p @ [(styles_key m, Subscriber (length (elements p)))]"
  by (simp add: attached_def)

lemma attached_subscribers:
  "subscribers m' (attached m p) =
     (if m' = m then subscribers m' p @ [length (elements p)] else subscribers m' p)"
  by (simp add: subscribers_def listeners_for_def)

lemma wf_attached:
  assumes "wf sep p"
  shows "wf sep (attached m p)"
proof -
  let ?q = "attached m p"
  have w3: "\<forall>t m a s. (t, Replay m a s) \<in> set (listeners p) \<longrightarrow>
        t = request_key m \<and> window p (styles_key m) = Some a \<and> s = sep"
    using assms unfolding wf_def by blast
  have w4: "\<forall>t el. (t, Subscriber el) \<in> set (listeners p) \<longrightarrow>
        (\<exists>m. t = styles_key m) \<and> el < length (elements p)"
    using assms unfolding wf_def by blast
  have w5: "\<forall>m a. window p (styles_key m) = Some a \<longrightarrow>
        listeners_for (request_key m) p = [Replay m a sep]"
    using assms unfolding wf_def by blast
  have w6: "distinct (subscriber_elements (map snd (listeners p)))"
    using assms unfolding wf_def by blast
  have c1: "\<forall>k a. window ?q k = Some a \<longrightarrow> a < fresh ?q"
    using assms unfolding wf_def by (simp add: attached_def)
  have c2: "\<forall>k k' a. window ?q k = Some a \<longrightarrow> window ?q k' = Some a \<longrightarrow> k = k'"
    using assms unfolding wf_def by (simp add: attached_def)
  have c3: "\<forall>t m' a s'. (t, Replay m' a s') \<in> set (listeners ?q) \<longrightarrow>
        t = request_key m' \<and> window ?q (styles_key m') = Some a \<and> s' = sep"
    using w3 by auto
  have c4: "\<forall>t el. (t, Subscriber el) \<in> set (listeners ?q) \<longrightarrow>
        (\<exists>m. t = styles_key m) \<and> el < length (elements ?q)"
    using w4 by (auto simp: less_Suc_eq)
  have c5: "\<forall>m' a. window ?q (styles_key m') = Some a \<longrightarrow>
        listeners_for (request_key m') ?q = [Replay m' a sep]"
    using w5 by (auto simp: listeners_for_def)
  have "length (elements p) \<notin> set (subscriber_elements (map snd (listeners p)))"
    using w4 unfolding mem_subscriber_elements by fastforce
  with w6 have c6: "distinct (subscriber_elements (map snd (listeners ?q)))"
    by simp
  from c1 c2 c3 c4 c5 c6 show ?thesis unfolding wf_def by blast
qed

lemma getStyle_attached:
  "getStyle m p = map_option (Pair (length (elements p)))
                    (run [Fire (CustomEvent (request_key m) None)] (attached m p))"
  by (simp add: getStyle_def attached_def addEventListener_def dispatchEvent_def Let_def)

lemma getStyle_subscribed:
  assumes "wf sep p"
  shows "getStyle m p = Some (length (elements p), subscribed sep m p)"
proof (cases "window p (styles_key m)")
  case None
  then have "window (attached m p) (styles_key m) = None" by simp
  from round_none [OF wf_attached [OF assms] this, of "CustomEvent (request_key m) None"] None
  show ?thesis by (simp add: getStyle_attached subscribed_def Let_def)
next
  case (Some a)
  then have "window (attached m p) (styles_key m) = Some a" by simp
  from round_some [OF wf_attached [OF assms] this, of "CustomEvent (request_key m) None"] Some
  show ?thesis by (simp add: getStyle_attached subscribed_def Let_def)
qed

lemma subscribed_wf:
  assumes "wf sep p"
  shows "wf sep (subscribed sep m p)"
  using wf_attached [OF assms, of m]
  by (simp add: subscribed_def Let_def wf_elements split: option.split)

lemma subscribed_registry [simp]: "registry m' (subscribed sep m p) = registry m' p"
  by (simp add: subscribed_def Let_def split: option.split)

lemma subscribed_aggregate [simp]: "aggregate sep' m' (subscribed sep m p) = aggregate sep' m' p"
  by (simp add: aggregate_def)

lemma subscribed_subscribers:
  "subscribers m' (subscribed sep m p) = subscribers m' (attached m p)"
  by (simp add: subscribed_def Let_def split: option.split)

lemma subscribed_length [simp]: "length (elements (subscribed sep m p)) = Suc (length (elements p))"
  by (simp add: subscribed_def Let_def split: option.split)

lemma subscribed_elements_none:
  "window p (styles_key m) = None \<Longrightarrow> elements (subscribed sep m p) = elements p @ [[]]"
  by (simp add: subscribed_def Let_def)

lemma subscribed_elements_some:
  "window p (styles_key m) = Some a \<Longrightarrow>
   elements (subscribed sep m p) =
     deliver (aggregate sep m p) (subscribers m (attached m p)) (elements p @ [[]])"
  by (simp add: subscribed_def Let_def)

lemma subscribed_synced:
  assumes "wf sep p" and "synced sep p"
  shows "synced sep (subscribed sep m p)"
  unfolding synced_def
proof (intro allI impI)
  fix m' el
  let ?q = "attached m p" and ?r = "subscribed sep m p"
  let ?n = "length (elements p)"
  assume "el \<in> set (subscribers m' ?r)"
  then have el: "el \<in> set (subscribers m' ?q)" by (simp add: subscribed_subscribers)
  have wfq: "wf sep ?q" by (rule wf_attached [OF assms(1)])
  from wf_subscribers_bound [OF wfq el] have bound: "el < length (elements p @ [[]])" by simp
  have old: "(elements p @ [[]]) ! el = aggregate sep m' p" if "el \<noteq> ?n"
  proof -
    from that el have "el \<in> set (subscribers m' p)"
      by (auto simp: attached_subscribers split: if_splits)
    with assms(2) have "elements p ! el = aggregate sep m' p" unfolding synced_def by blast
    moreover from that bound have "el < length (elements p)" by simp
    ultimately show ?thesis by (simp add: nth_append)
  qed
  have new: "m' = m" if "el = ?n"
  proof -
    from that have "el \<notin> set (subscribers m' p)"
      using wf_subscribers_bound [OF assms(1), of el m'] by auto
    with el show ?thesis by (auto simp: attached_subscribers split: if_splits)
  qed
  have "elements ?r ! el = aggregate sep m' p"
  proof (cases "window p (styles_key m)")
    case None
    show ?thesis
    proof (cases "el = ?n")
      case True
      with new None show ?thesis by (simp add: subscribed_elements_none aggregate_missing)
    next
      case False
      with old show ?thesis by (simp add: subscribed_elements_none [OF None])
    qed
  next
    case (Some a)
    show ?thesis
    proof (cases "el \<in> set (subscribers m ?q)")
      case True
      with el wf_subscribers_disjoint [OF wfq] have "m' = m" by blast
      with True bound show ?thesis by (simp add: subscribed_elements_some [OF Some] nth_deliver)
    next
      case False
      then have "el \<noteq> ?n" by (auto simp: attached_subscribers)
      with old False bound show ?thesis by (simp add: subscribed_elements_some [OF Some] nth_deliver)
    qed
  qed
  then show "elements ?r ! el = aggregate sep m' ?r" by simp
qed

lemma wf_init: "wf sep init_page"
  by (simp add: wf_def init_page_def listeners_for_def)

lemma synced_init: "synced sep init_page"
  by (simp add: synced_def init_page_def subscribers_def listeners_for_def)

lemma good_init: "good sep init_page"
  by (simp add: good_def wf_init synced_init)

lemma step_good:
  assumes "good sep p"
  shows "\<exists>p'. step sep x p = Some p' \<and> good sep p'"
proof (cases x)
  case (Publish m i s)
  with assms show ?thesis
    by (simp add: good_def dispatch_with_published published_wf published_synced)
next
  case (Subscribe m)
  with assms show ?thesis
    by (simp add: good_def getStyle_subscribed [of sep] subscribed_wf subscribed_synced)
qed

lemma exec_good:
  "good sep p \<Longrightarrow> \<exists>p'. exec sep h p = Some p' \<and> good sep p'"
proof (induction h arbitrary: p)
  case Nil
  then show ?case by simp
next
  case (Cons x h)
  from step_good [OF Cons.prems, of x] obtain q where q: "step sep x p = Some q" "good sep q"
    by blast
  from Cons.IH [OF q(2)] q(1) show ?case by simp
qed

lemma exec_append:
  "exec sep (h @ h') p = (case exec sep h p of None \<Rightarrow> None | Some q \<Rightarrow> exec sep h' q)"
  by (induction h arbitrary: p) (simp_all split: option.split)

lemma step_registry:
  assumes "wf sep p" and "step sep x p = Some p'"
  shows "registry m p' = foldl (\<lambda>obj (i, s). set_prop i s obj) (registry m p) (writes m [x])"
proof (cases x)
  case (Publish m' i s)
  with assms show ?thesis
    by (auto simp: dispatch_with_published published_registry_same published_registry_other)
next
  case (Subscribe m')
  with assms show ?thesis
    by (auto simp: getStyle_subscribed [of sep])
qed

lemma writes_append [simp]: "writes m (h @ h') = writes m h @ writes m h'"
  by (induction h rule: writes.induct) simp_all

lemma exec_registry:
  "good sep p \<Longrightarrow> exec sep h p = Some p' \<Longrightarrow>
   registry m p' = foldl (\<lambda>obj (i, s). set_prop i s obj) (registry m p) (writes m h)"
proof (induction h arbitrary: p)
  case Nil
  then show ?case by simp
next
  case (Cons x h)
  from step_good [OF Cons.prems(1), of x] obtain q where q: "step sep x p = Some q" "good sep q"
    by blast
  with Cons.prems(2) have e: "exec sep h q = Some p'" by simp
  from Cons.prems(1) have "wf sep p" by (simp add: good_def)
  from step_registry [OF this q(1), of m] Cons.IH [OF q(2) e]
  show ?case using writes_append [of m "[x]" h] by (simp del: writes_append)
qed

lemma foldl_set_prop_stored:
  "foldl (\<lambda>obj (i, s). set_prop i s obj) obj ws = foldl (\<lambda>obj (i, s). put i s obj) obj (stored ws)"
  by (induction ws arbitrary: obj) (auto simp: set_prop_def stored_def)

lemma keys_put:
  "map fst (put k v obj) = (if k \<in> fst ` set obj then map fst obj else map fst obj @ [k])"
proof (induction obj)
  case Nil
  then show ?case by simp
next
  case (Cons x obj)
  obtain k' v' where x: "x = (k', v')" by (cases x)
  show ?case
  proof (cases "k' = k")
    case True
    then show ?thesis by (simp add: x)
  next
    case False
    with Cons.IH show ?thesis by (simp add: x)
  qed
qed

lemma map_of_put_at: "map_of (put k v obj) x = (if x = k then Some v else map_of obj x)"
  by (induction obj) auto

lemma map_of_put: "map_of (put k v obj) = (map_of obj)(k \<mapsto> v)"
  by (rule ext) (simp add: map_of_put_at)

lemma put_idem: "put k v (put k v obj) = put k v obj"
  by (induction obj) auto

lemma set_prop_idem: "set_prop k v (set_prop k v obj) = set_prop k v obj"
  by (simp add: set_prop_def put_idem)

lemma first_write_order_set [simp]: "set (first_write_order xs) = set xs"
  by (induction xs) auto

lemma first_write_order_snoc:
  "first_write_order (xs @ [i]) =
     (if i \<in> set xs then first_write_order xs else first_write_order xs @ [i])"
  by (induction xs) auto

lemma put_fold_keys:
  "map fst (foldl (\<lambda>obj (i, s). put i s obj) [] ws) = first_write_order (map fst ws)"
proof (induction ws rule: rev_induct)
  case Nil
  then show ?case by simp
next
  case (snoc w ws)
  obtain i s where w: "w = (i, s)" by (cases w)
  let ?obj = "foldl (\<lambda>obj (i, s). put i s obj) [] ws"
  have "fst ` set ?obj = set (map fst ?obj)" by simp
  also have "\<dots> = set (map fst ws)" by (simp only: snoc.IH first_write_order_set)
  finally have "fst ` set ?obj = set (map fst ws)" .
  with snoc.IH show ?case
    by (simp add: w keys_put first_write_order_snoc)
qed

lemma put_fold_map_of:
  "map_of (foldl (\<lambda>obj (i, s). put i s obj) [] ws) = map_of (rev ws)"
proof (induction ws rule: rev_induct)
  case Nil
  then show ?case by simp
next
  case (snoc w ws)
  obtain i s where w: "w = (i, s)" by (cases w)
  from snoc.IH show ?case by (simp add: w map_of_put)
qed

lemma set_own_key_order [simp]: "set (own_key_order ks) = set ks"
  by (auto simp: own_key_order_def)

lemma object_values_writes:
  "object_values (foldl (\<lambda>obj (i, s). set_prop i s obj) [] ws) =
     map (latest_text (stored ws)) (own_key_order (first_write_order (map fst (stored ws))))"
proof -
  let ?ws = "stored ws"
  let ?obj = "foldl (\<lambda>obj (i, s). put i s obj) [] ?ws"
  have "get_prop ?obj k = latest_text ?ws k" if "k \<in> set (map fst ?ws)" for k
  proof -
    from that have "k \<in> fst ` set (rev ?ws)" by simp
    then obtain v where "map_of (rev ?ws) k = Some v"
      by (metis map_of_eq_None_iff not_Some_eq)
    then show ?thesis by (simp add: get_prop_def latest_text_def put_fold_map_of)
  qed
  then show ?thesis
    by (simp add: foldl_set_prop_stored object_values_def object_keys_def put_fold_keys)
qed

lemma registry_init [simp]: "registry m init_page = []"
  by (simp add: registry_def init_page_def)

lemma exec_init:
  obtains p where "exec sep h init_page = Some p" and "good sep p"
    and "\<And>m. registry m p = foldl (\<lambda>obj (i, s). set_prop i s obj) [] (writes m h)"
proof -
  from exec_good [OF good_init, of sep h] obtain p
    where p: "exec sep h init_page = Some p" "good sep p" by blast
  from exec_registry [OF good_init p(1)] have "\<And>m. registry m p = foldl (\<lambda>obj (i, s). set_prop i s obj) [] (writes m h)"
    by simp
  with p that show ?thesis by blast
qed

lemma exec_aggregate:
  assumes "exec sep h init_page = Some p"
  shows "aggregate sep m p = key_order_aggregate sep (writes m h)"
  using exec_registry [OF good_init assms, of m]
  by (simp add: aggregate_def key_order_aggregate_def object_values_writes)

lemma join_Nil_concat: "join [] xs = concat xs"
  by (induction xs rule: induct_list012) simp_all

lemma prepared_window:
  "window (prepared sep m i s p) k =
     (if k = styles_key m then Some (case window p k of Some a \<Rightarrow> a | None \<Rightarrow> fresh p)
      else window p k)"
  by (simp add: prepared_def split: option.split)

lemma published_window:
  "window (published sep m i s p) k =
     (if k = styles_key m then Some (case window p k of Some a \<Rightarrow> a | None \<Rightarrow> fresh p)
      else window p k)"
  by (simp add: published_def Let_def prepared_window)

lemma subscribed_window [simp]: "window (subscribed sep m p) = window p"
  by (simp add: subscribed_def Let_def split: option.split)

lemma step_window_mono:
  assumes "wf sep p" and "step sep x p = Some p'" and "window p k \<noteq> None"
  shows "window p' k \<noteq> None"
proof (cases x)
  case (Publish m i s)
  with assms show ?thesis
    by (auto simp: dispatch_with_published published_window)
next
  case (Subscribe m)
  with assms show ?thesis
    by (auto simp: getStyle_subscribed [of sep])
qed

lemma exec_window_mono:
  "good sep p \<Longrightarrow> exec sep h p = Some p' \<Longrightarrow> window p k \<noteq> None \<Longrightarrow> window p' k \<noteq> None"
proof (induction h arbitrary: p)
  case Nil
  then show ?case by simp
next
  case (Cons x h)
  from step_good [OF Cons.prems(1), of x] obtain q where q: "step sep x p = Some q" "good sep q"
    by blast
  with Cons.prems(2) have e: "exec sep h q = Some p'" by simp
  from Cons.prems(1) have "wf sep p" by (simp add: good_def)
  from step_window_mono [OF this q(1) Cons.prems(3)] have "window q k \<noteq> None" .
  from Cons.IH [OF q(2) e this] show ?case .
qed

lemma exec_window_published:
  "good sep p \<Longrightarrow> exec sep h p = Some p' \<Longrightarrow> Publish m i s \<in> set h \<Longrightarrow>
   window p' (styles_key m) \<noteq> None"
proof (induction h arbitrary: p)
  case Nil
  then show ?case by simp
next
  case (Cons x h)
  from step_good [OF Cons.prems(1), of x] obtain q where q: "step sep x p = Some q" "good sep q"
    by blast
  with Cons.prems(2) have e: "exec sep h q = Some p'" by simp
  from Cons.prems(1) have wfp: "wf sep p" by (simp add: good_def)
  show ?case
  proof (cases "x = Publish m i s")
    case True
    with q(1) wfp have "q = published sep m i s p" by (simp add: dispatch_with_published)
    then have "window q (styles_key m) \<noteq> None" by (simp add: published_window)
    from exec_window_mono [OF q(2) e this] show ?thesis .
  next
    case False
    with Cons.prems(3) have "Publish m i s \<in> set h" by simp
    from Cons.IH [OF q(2) e this] show ?thesis .
  qed
qed

lemma subscribed_new_element:
  assumes "wf sep p" and "window p (styles_key m) = Some a"
  shows "elements (subscribed sep m p) ! length (elements p) = aggregate sep m p"
  using assms(2)
  by (simp add: subscribed_elements_some nth_deliver attached_subscribers)

lemma subscribed_dispatched_some:
  "window p (styles_key m) = Some a \<Longrightarrow>
   dispatched (subscribed sep m p) =
     dispatched p @ [CustomEvent (request_key m) None,
                     CustomEvent (styles_key m) (Some (aggregate sep m p))]"
  by (simp add: subscribed_def Let_def)

lemma registry_slot: "window p (styles_key m) = Some a \<Longrightarrow> registry m p = objects p a"
  by (simp add: registry_def)

lemma prepared_fixed:
  assumes "window q (styles_key m) = Some a" and "set_prop i s (objects q a) = objects q a"
  shows "prepared sep m i s q = q"
  using assms by (simp add: prepared_def)

lemma published_twice:
  fixes sep m i s p
  defines "q \<equiv> published sep m i s p"
  shows "published sep m i s q =
           q\<lparr>dispatched := dispatched q @ [Event (request_key m),
                               CustomEvent (styles_key m) (Some (aggregate sep m q))]\<rparr>"
proof -
  obtain a where a: "window q (styles_key m) = Some a"
    by (simp add: q_def published_window)
  have "objects q a = registry m q" using a by (simp add: registry_slot)
  also have "\<dots> = set_prop i s (registry m p)" by (simp add: q_def published_registry_same)
  finally have "set_prop i s (objects q a) = objects q a" by (simp add: set_prop_idem)
  from prepared_fixed [OF a this] have fixed: "prepared sep m i s q = q" .
  have subs: "subscribers m q = subscribers m p" by (simp add: q_def)
  have "elements q = deliver (aggregate sep m q) (subscribers m p) (elements p)"
    unfolding q_def by (rule published_elements)
  then have "deliver (aggregate sep m q) (subscribers m q) (elements q) = elements q"
    by (metis deliver_idem subs)
  then show ?thesis
    by (simp add: published_def [of sep m i s q] Let_def fixed)
qed

lemma concat_map_skip_empty:
  "f k = [] \<Longrightarrow> concat (map f (filter (\<lambda>x. x \<noteq> k) xs)) = concat (map f xs)"
  by (induction xs) auto

lemma own_key_order_snoc_filter:
  assumes "k \<notin> set ks"
  shows "filter (\<lambda>x. x \<noteq> k) (own_key_order (ks @ [k])) = own_key_order ks"
proof -
  have f: "filter (\<lambda>x. x \<noteq> k) (filter P (ks @ [k])) = filter P ks" for P
    using assms by (induction ks) auto
  show ?thesis
    unfolding own_key_order_def filter_append filter_sort
    using f [of "\<lambda>k. array_index k \<noteq> None"] f [of "\<lambda>k. array_index k = None"]
    by simp
qed

lemma get_prop_put_other: "x \<noteq> k \<Longrightarrow> get_prop (put k v obj) x = get_prop obj x"
  by (simp add: get_prop_def map_of_put_at)

lemma get_prop_put_same: "get_prop (put k v obj) k = v"
  by (simp add: get_prop_def map_of_put_at)

lemma concat_values_put_empty:
  assumes "k \<notin> fst ` set obj"
  shows "concat (object_values (put k [] obj)) = concat (object_values obj)"
proof -
  let ?ks = "map fst obj"
  from assms have k: "k \<notin> set ?ks" by simp
  have "concat (object_values (put k [] obj))
        = concat (map (get_prop (put k [] obj)) (own_key_order (?ks @ [k])))"
    using assms by (simp add: object_values_def object_keys_def keys_put)
  also have "\<dots> = concat (map (get_prop (put k [] obj))
                          (filter (\<lambda>x. x \<noteq> k) (own_key_order (?ks @ [k]))))"
    by (rule concat_map_skip_empty [symmetric]) (rule get_prop_put_same)
  also have "\<dots> = concat (map (get_prop (put k [] obj)) (own_key_order ?ks))"
    by (simp only: own_key_order_snoc_filter [OF k])
  also have "\<dots> = concat (map (get_prop obj) (own_key_order ?ks))"
  proof -
    have "map (get_prop (put k [] obj)) (own_key_order ?ks) = map (get_prop obj) (own_key_order ?ks)"
      using k by (intro map_cong refl get_prop_put_other) auto
    then show ?thesis by (rule arg_cong)
  qed
  finally show ?thesis by (simp add: object_values_def object_keys_def)
qed

lemma concat_values_remove_absent:
  assumes "k \<notin> fst ` set obj"
  shows "concat (object_values (set_prop k [] obj)) = concat (object_values obj)"
  using concat_values_put_empty [OF assms] by (simp add: set_prop_def)

lemma deliver_same:
  assumes "\<forall>el \<in> set els. el < length es \<longrightarrow> es ! el = txt"
  shows "deliver txt els es = es"
  using assms by (intro nth_equalityI) (auto simp: nth_deliver)

lemma exec_registry_keys:
  assumes "exec sep h init_page = Some p"
  shows "map fst (registry m p) = first_write_order (map fst (stored (writes m h)))"
  using exec_registry [OF good_init assms, of m]
  by (simp add: foldl_set_prop_stored put_fold_keys)

lemma stored_subset: "set (stored ws) \<subseteq> set ws"
  by (auto simp: stored_def)

lemma keys_set_prop_grow: "fst ` set obj \<subseteq> fst ` set (set_prop i s obj)"
proof -
  have "set (map fst obj) \<subseteq> set (map fst (put i s obj))"
    by (simp add: keys_put subset_insertI)
  then show ?thesis by (simp add: set_prop_def)
qed

lemma keys_foldl_grow:
  "fst ` set obj \<subseteq> fst ` set (foldl (\<lambda>obj (i, s). set_prop i s obj) obj ws)"
proof (induction ws arbitrary: obj)
  case Nil
  then show ?case by simp
next
  case (Cons w ws)
  obtain i s where w: "w = (i, s)" by (cases w)
  from keys_set_prop_grow [of obj i s] Cons.IH [of "set_prop i s obj"]
  show ?case by (auto simp: w)
qed

section \<open>Properties of matching and replacing\<close>

lemma first_some_None_iff: "first_some f ks = None \<longleftrightarrow> (\<forall>k\<in>set ks. f k = None)"
  by (induction ks) (auto split: option.splits)

lemma first_some_Some: "first_some f ks = Some v \<Longrightarrow> \<exists>k\<in>set ks. f k = Some v"
  by (induction ks) (auto split: option.splits)

lemma first_some_first:
  "\<forall>j\<in>set xs. f j = None \<Longrightarrow> f k = Some v \<Longrightarrow> first_some f (xs @ k # ys) = Some v"
  by (induction xs) auto

lemma dot_run_append:
  "\<forall>c\<in>set a. \<not> line_terminator c \<Longrightarrow> dot_run (a @ s) = length a + dot_run s"
  by (simp add: dot_run_def takeWhile_append2)

lemma upt_split_at:
  assumes "1 \<le> n" and "n \<le> r"
  shows "[1..<Suc r] = [1..<n] @ n # [Suc n..<Suc r]"
proof -
  from assms(2) obtain k where k: "Suc r = n + k" and "0 < k"
    by (metis add_Suc_right le_Suc_ex zero_less_Suc)
  from upt_add_eq_append [OF assms(1), of k] have "[1..<Suc r] = [1..<n] @ [n..<Suc r]"
    by (simp add: k)
  moreover from assms(2) have "[n..<Suc r] = n # [Suc n..<Suc r]"
    by (intro upt_conv_Cons) simp
  ultimately show ?thesis by simp
qed

lemma lazy_call_match_gen:
  assumes "CHR '')'' \<notin> set x" and "\<not> line_terminator c" and "\<forall>c\<in>set x. \<not> line_terminator c"
  shows "match_here [Lit l, AnyPlusLazy, Lit '')''] (l @ (c # x) @ '')'' @ post)
           = Some (length l + length (c # x) + 1)"
proof -
  let ?args = "c # x"
  let ?s = "?args @ '')'' @ post"
  let ?F = "\<lambda>k. map_option (\<lambda>n. k + n) (match_here [Lit '')''] (drop k ?s))"
  let ?n = "length ?args"
  have nl: "\<forall>c\<in>set ?args. \<not> line_terminator c" using assms(2,3) by simp
  have "\<not> line_terminator (CHR '')'')" by (simp add: line_terminator_def)
  then have "dot_run ('')'' @ post) = 1 + dot_run post" by (simp add: dot_run_def)
  with nl have run: "dot_run ?s = ?n + 1 + dot_run post" by (simp only: dot_run_append)
  have before: "\<forall>j\<in>set [1..<?n]. ?F j = None"
  proof
    fix j assume "j \<in> set [1..<?n]"
    then have j: "1 \<le> j" "j < ?n" by auto
    then obtain j' where j': "j = Suc j'" "j' < length x" by (cases j) simp_all
    then have "drop j ?s = x ! j' # drop (Suc j') x @ '')'' @ post"
      by (simp add: Cons_nth_drop_Suc)
    moreover from j' assms(1) have "x ! j' \<noteq> CHR '')''" by (metis nth_mem)
    ultimately show "?F j = None" by simp
  qed
  have at: "?F ?n = Some (?n + 1)" by simp
  have "1 \<le> ?n" by simp
  moreover have "?n \<le> dot_run ?s" using run by simp
  ultimately have "[1..<Suc (dot_run ?s)] = [1..<?n] @ ?n # [Suc ?n..<Suc (dot_run ?s)]"
    by (rule upt_split_at)
  with first_some_first [OF before at] have "first_some ?F [1..<Suc (dot_run ?s)] = Some (?n + 1)"
    by simp
  then show ?thesis by simp
qed

lemma lazy_call_match:
  assumes "args \<noteq> []" and "CHR '')'' \<notin> set args" and "\<forall>c\<in>set args. \<not> line_terminator c"
  shows "match_here [Lit l, AnyPlusLazy, Lit '')''] (l @ args @ '')'' @ post)
           = Some (length l + length args + 1)"
proof -
  from assms(1) obtain c x where args: "args = c # x" by (cases args) simp_all
  from assms(2,3) have "CHR '')'' \<notin> set x" "\<not> line_terminator c" "\<forall>c\<in>set x. \<not> line_terminator c"
    by (simp_all add: args)
  then show ?thesis unfolding args by (rule lazy_call_match_gen)
qed

lemma match_here_prefix: "match_here (Lit l # rest) t = Some n \<Longrightarrow> prefix l t"
  by (simp split: if_splits)

lemma search_here: "match_here re s = Some n \<Longrightarrow> search re s = Some ([], take n s, drop n s)"
  by (cases s) simp_all

lemma search_skip:
  "(\<And>i. i < length pre \<Longrightarrow> match_here re (drop i (pre @ s)) = None) \<Longrightarrow>
   search re (pre @ s) = map_option (\<lambda>(b, m, a). (pre @ b, m, a)) (search re s)"
proof (induction pre)
  case Nil
  then show ?case by (simp add: option.map_ident case_prod_beta)
next
  case (Cons c pre)
  from Cons.prems [of 0] have here: "match_here re (c # pre @ s) = None" by simp
  have "match_here re (drop i (pre @ s)) = None" if "i < length pre" for i
    using Cons.prems [of "Suc i"] that by simp
  from Cons.IH [OF this] here show ?case
    by (simp add: option.map_comp comp_def case_prod_beta)
qed

lemma search_none:
  "(\<And>i. i \<le> length s \<Longrightarrow> match_here re (drop i s) = None) \<Longrightarrow> search re s = None"
proof (induction s)
  case Nil
  from Nil [of 0] show ?case by simp
next
  case (Cons c s)
  from Cons.prems [of 0] have here: "match_here re (c # s) = None" by simp
  have "match_here re (drop i s) = None" if "i \<le> length s" for i
    using Cons.prems [of "Suc i"] that by simp
  from Cons.IH [OF this] here show ?case by simp
qed

lemma prefix_inside:
  assumes "i < length pre" and "prefix l (drop i (pre @ l @ rest))" and "l \<noteq> []"
  shows "sublist l (pre @ butlast l)"
proof -
  let ?Y = "pre @ butlast l"
  from assms(3) have split: "pre @ l @ rest = ?Y @ (last l # rest)" by simp
  from assms(1,3) have bound: "i + length l \<le> length ?Y" by (cases l) simp_all
  from assms(2) have "take (length l) (drop i (pre @ l @ rest)) = l"
    by (metis append_eq_conv_conj prefix_def)
  then have "take (length l) (drop i (?Y @ (last l # rest))) = l" by (simp only: split)
  with bound have "take (length l) (drop i ?Y) = l" by simp
  then have "prefix l (drop i ?Y)" by (metis take_is_prefix)
  then have "sublist l (drop i ?Y)" by (rule prefix_imp_sublist)
  then show ?thesis using sublist_drop [of i ?Y] by (meson sublist_order.order.trans)
qed

lemma no_match_before:
  assumes "\<not> sublist l (pre @ butlast l)" and "l \<noteq> []" and "i < length pre"
  shows "match_here (Lit l # r) (drop i (pre @ l @ s)) = None"
proof (rule ccontr)
  assume "match_here (Lit l # r) (drop i (pre @ l @ s)) \<noteq> None"
  then obtain n where "match_here (Lit l # r) (drop i (pre @ l @ s)) = Some n" by blast
  then have "prefix l (drop i (pre @ l @ s))" by (rule match_here_prefix)
  from prefix_inside [OF assms(3) this assms(2)] assms(1) show False by simp
qed

lemma search_first:
  assumes "\<not> sublist l (pre @ butlast l)" and "l \<noteq> []"
    and "match_here (Lit l # r) (l @ s) = Some n"
  shows "search (Lit l # r) (pre @ l @ s) = Some (pre, take n (l @ s), drop n (l @ s))"
  using search_skip [of pre "Lit l # r" "l @ s", OF no_match_before [OF assms(1,2)]]
    search_here [OF assms(3)]
  by simp

lemma search_absent:
  assumes "\<not> sublist l s"
  shows "search (Lit l # r) s = None"
proof (rule search_none)
  fix i
  show "match_here (Lit l # r) (drop i s) = None"
  proof (rule ccontr)
    assume "match_here (Lit l # r) (drop i s) \<noteq> None"
    then obtain n where "match_here (Lit l # r) (drop i s) = Some n" by blast
    then have "prefix l (drop i s)" by (rule match_here_prefix)
    then have "sublist l (drop i s)" by (rule prefix_imp_sublist)
    then have "sublist l s" using sublist_drop [of i s] by (meson sublist_order.order.trans)
    with assms show False by simp
  qed
qed

lemma get_substitution_verbatim:
  "no_replacement_pattern t \<Longrightarrow> get_substitution m b a t = t"
  by (induction m b a t rule: get_substitution.induct) (auto split: if_splits)

lemma no_replacement_pattern_Cons:
  "no_replacement_pattern (c # xs) \<longleftrightarrow>
     no_replacement_pattern xs \<and>
     \<not> (c = CHR ''$'' \<and> xs \<noteq> [] \<and> hd xs \<in> set [CHR ''$'', CHR ''&'', CHR 0x60, CHR 0x27])"
  by (cases xs) auto

lemma no_replacement_pattern_append:
  "no_replacement_pattern (x @ y) \<longleftrightarrow>
     no_replacement_pattern x \<and> no_replacement_pattern y \<and>
     \<not> (x \<noteq> [] \<and> y \<noteq> [] \<and> last x = CHR ''$''
          \<and> hd y \<in> set [CHR ''$'', CHR ''&'', CHR 0x60, CHR 0x27])"
proof (induction x)
  case Nil
  then show ?case by simp
next
  case (Cons c x)
  show ?case
    unfolding append_Cons no_replacement_pattern_Cons [of c] Cons.IH
    by (cases x) (auto simp: hd_append)
qed

lemma replace_first_call:
  assumes "\<not> sublist l (pre @ butlast l)" and "l \<noteq> []"
    and "args \<noteq> []" and "CHR '')'' \<notin> set args" and "\<forall>c\<in>set args. \<not> line_terminator c"
    and "no_replacement_pattern template"
  shows "replace_first [Lit l, AnyPlusLazy, Lit '')''] template (pre @ l @ args @ '')'' @ post)
           = pre @ template @ post"
proof -
  from lazy_call_match [OF assms(3,4,5), of l post]
  have m: "match_here [Lit l, AnyPlusLazy, Lit '')''] (l @ args @ '')'' @ post)
             = Some (length l + length args + 1)" .
  from search_first [OF assms(1,2) m] show ?thesis
    by (simp add: replace_first_def get_substitution_verbatim [OF assms(6)])
qed

lemma replace_first_absent:
  "\<not> sublist l s \<Longrightarrow> replace_first (Lit l # r) template s = s"
  by (simp add: replace_first_def search_absent)

lemma update_call_verbatim:
  "no_replacement_pattern d \<Longrightarrow> no_replacement_pattern (update_call d)"
  by (simp add: update_call_def no_replacement_pattern_append no_replacement_pattern_Cons)

lemma remove_call_verbatim:
  "no_replacement_pattern d \<Longrightarrow> no_replacement_pattern (remove_call d)"
  by (simp add: remove_call_def no_replacement_pattern_append no_replacement_pattern_Cons)

lemma update_call2_verbatim:
  assumes "no_replacement_pattern d" and "no_replacement_pattern (''`'' @ name @ ''`'')"
  shows "no_replacement_pattern (update_call2 d name)"
proof -
  have "update_call2 d name = '';('' @ d @ '')('' @ (''`'' @ name @ ''`'') @ '',__vite__id,__vite__css)''"
    by (simp add: update_call2_def)
  moreover have "no_replacement_pattern
     ('';('' @ d @ '')('' @ (''`'' @ name @ ''`'') @ '',__vite__id,__vite__css)'')"
    using assms
    by (simp add: no_replacement_pattern_append no_replacement_pattern_Cons)
  ultimately show ?thesis by simp
qed

lemma remove_call2_verbatim:
  assumes "no_replacement_pattern d" and "no_replacement_pattern (''`'' @ name @ ''`'')"
  shows "no_replacement_pattern (remove_call2 d name)"
proof -
  have "remove_call2 d name
      = ''('' @ d @ '')('' @ (''`'' @ name @ ''`'') @ '',__vite__id,'' @ [CHR 0x27, CHR 0x27] @ '')''"
    by (simp add: remove_call2_def)
  moreover have "no_replacement_pattern
     (''('' @ d @ '')('' @ (''`'' @ name @ ''`'') @ '',__vite__id,'' @ [CHR 0x27, CHR 0x27] @ '')'')"
    using assms
    by (simp add: no_replacement_pattern_append no_replacement_pattern_Cons)
  ultimately show ?thesis by simp
qed

lemma rewrite_both_calls:
  assumes "\<not> sublist ''__vite__updateStyle('' (A @ ''__vite__updateStyle'')"
    and "\<not> sublist ''__vite__removeStyle('' (A @ u @ B @ ''__vite__removeStyle'')"
    and "a1 \<noteq> []" and "CHR '')'' \<notin> set a1" and "\<forall>c\<in>set a1. \<not> line_terminator c"
    and "a2 \<noteq> []" and "CHR '')'' \<notin> set a2" and "\<forall>c\<in>set a2. \<not> line_terminator c"
    and "no_replacement_pattern u" and "no_replacement_pattern r"
  shows "replace_first remove_pattern r
           (replace_first update_pattern u
              (A @ ''__vite__updateStyle('' @ a1 @ '')'' @ B @ ''__vite__removeStyle('' @ a2 @ '')'' @ C))
         = A @ u @ B @ r @ C"
proof -
  let ?U = "''__vite__updateStyle(''" and ?R = "''__vite__removeStyle(''"
  have bu: "butlast ?U = ''__vite__updateStyle''" and br: "butlast ?R = ''__vite__removeStyle''"
    by simp_all
  have nu: "\<not> sublist ?U (A @ butlast ?U)" unfolding bu by (rule assms(1))
  have nr: "\<not> sublist ?R ((A @ u @ B) @ butlast ?R)" unfolding br append_assoc by (rule assms(2))
  have first: "replace_first update_pattern u
                 (A @ ?U @ a1 @ '')'' @ (B @ ?R @ a2 @ '')'' @ C))
               = A @ u @ (B @ ?R @ a2 @ '')'' @ C)"
    unfolding update_pattern_def
    by (rule replace_first_call [OF nu _ assms(3,4,5,9)]) simp
  have second: "replace_first remove_pattern r ((A @ u @ B) @ ?R @ a2 @ '')'' @ C)
               = (A @ u @ B) @ r @ C"
    unfolding remove_pattern_def
    by (rule replace_first_call [OF nr _ assms(6,7,8,10)]) simp
  from first second show ?thesis by (simp only: append_assoc)
qed

lemma call_at_shape:
  assumes "call_at l t"
  shows "\<exists>c x. t = l @ (c # x) @ '')'' @ after_call l t \<and> CHR '')'' \<notin> set x
            \<and> \<not> line_terminator c \<and> (\<forall>c\<in>set x. \<not> line_terminator c)"
proof -
  let ?nlt = "\<lambda>c. \<not> line_terminator c"
  let ?r = "drop (length l) t"
  from assms have p: "prefix l t" and m: "CHR '')'' \<in> set (tl (takeWhile ?nlt ?r))"
    by (simp_all add: call_at_def split: if_splits)
  from p have t: "t = l @ ?r" by (auto simp: prefix_def)
  from m have "takeWhile ?nlt ?r \<noteq> []" by auto
  then obtain c r' where r: "?r = c # r'" and c: "\<not> line_terminator c"
    by (cases ?r) (auto split: if_splits)
  with m have m': "CHR '')'' \<in> set (takeWhile ?nlt r')" by simp
  then obtain ys zs where split: "takeWhile ?nlt r' = ys @ CHR '')'' # zs" and ys: "CHR '')'' \<notin> set ys"
    using split_list_first [of "CHR '')''" "takeWhile ?nlt r'"] by auto
  have r': "r' = ys @ CHR '')'' # zs @ dropWhile ?nlt r'"
    using takeWhile_dropWhile_id [of ?nlt r'] split by simp
  have "set ys \<subseteq> set (takeWhile ?nlt r')" using split by auto
  then have nl: "\<forall>c\<in>set ys. \<not> line_terminator c" by (auto dest: set_takeWhileD)
  have "dropWhile (\<lambda>c. c \<noteq> CHR '')'') r' = CHR '')'' # zs @ dropWhile ?nlt r'"
    by (subst r') (use ys in \<open>auto simp: dropWhile_append3\<close>)
  then have a: "after_call l t = zs @ dropWhile ?nlt r'"
    by (simp add: after_call_def r)
  have "t = l @ (c # ys) @ '')'' @ after_call l t"
    by (subst t, subst a, subst r, subst r') simp
  with ys c nl show ?thesis by blast
qed

lemma match_call:
  assumes "call_at l t"
  shows "\<exists>n. match_here [Lit l, AnyPlusLazy, Lit '')''] t = Some n \<and> drop n t = after_call l t"
proof -
  from call_at_shape [OF assms] obtain c x where
    t: "t = l @ (c # x) @ '')'' @ after_call l t" and x: "CHR '')'' \<notin> set x"
    and c: "\<not> line_terminator c" and nl: "\<forall>c\<in>set x. \<not> line_terminator c" by blast
  define post where "post = after_call l t"
  from t have t': "t = l @ (c # x) @ '')'' @ post" by (simp add: post_def)
  have "match_here [Lit l, AnyPlusLazy, Lit '')''] t = Some (length l + length (c # x) + 1)"
    by (subst t', rule lazy_call_match_gen [OF x c nl])
  moreover have "drop (length l + length (c # x) + 1) t = post"
    by (subst t') simp
  ultimately show ?thesis by (simp add: post_def)
qed

lemma no_match_call:
  assumes "\<not> call_at l t"
  shows "match_here [Lit l, AnyPlusLazy, Lit '')''] t = None"
proof (cases "prefix l t")
  case False
  then show ?thesis by simp
next
  case True
  define r where "r = drop (length l) t"
  define run where "run = takeWhile (\<lambda>c. \<not> line_terminator c) r"
  let ?F = "\<lambda>k. map_option (\<lambda>n. k + n) (match_here [Lit '')''] (drop k r))"
  from assms True have m: "CHR '')'' \<notin> set (tl run)" by (simp add: call_at_def r_def run_def)
  have len: "dot_run r = length run" by (simp add: dot_run_def run_def)
  have "?F k = None" if k: "k \<in> set [1..<Suc (length run)]" for k
  proof (rule ccontr)
    assume "?F k \<noteq> None"
    then have pk: "prefix '')'' (drop k r)" by (auto split: if_splits)
    then have kl: "k < length r" by (cases "k < length r") auto
    then have "drop k r = r ! k # drop (Suc k) r" by (simp add: Cons_nth_drop_Suc)
    with pk have at: "r ! k = CHR '')''" by simp
    from k have k1: "1 \<le> k" and k2: "k \<le> length run" by auto
    show False
    proof (cases "k < length run")
      case True
      then have "run ! k = r ! k" unfolding run_def by (rule takeWhile_nth)
      moreover from k1 True have "run ! k \<in> set (tl run)"
        by (cases run; cases k) auto
      ultimately show False using m at by simp
    next
      case False
      with k2 have "k = length run" by simp
      with kl have "line_terminator (r ! k)"
        using nth_length_takeWhile [of "\<lambda>c. \<not> line_terminator c" r] by (simp add: run_def)
      with at show False by (simp add: line_terminator_def)
    qed
  qed
  then have "first_some ?F [1..<Suc (dot_run r)] = None"
    unfolding len first_some_None_iff by blast
  with True show ?thesis by (simp add: r_def)
qed

lemma replace_first_is_rewrite_first_call:
  assumes "no_replacement_pattern new"
  shows "replace_first [Lit l, AnyPlusLazy, Lit '')''] new code = rewrite_first_call l new code"
proof (induction code)
  case Nil
  have "\<not> call_at l []" by (simp add: call_at_def)
  from no_match_call [OF this] show ?case by (simp add: replace_first_def)
next
  case (Cons c cs)
  let ?re = "[Lit l, AnyPlusLazy, Lit '')'']"
  show ?case
  proof (cases "call_at l (c # cs)")
    case True
    from match_call [OF True] obtain n where
      n: "match_here ?re (c # cs) = Some n" "drop n (c # cs) = after_call l (c # cs)" by blast
    from search_here [OF n(1)] n(2) True show ?thesis
      by (simp add: replace_first_def get_substitution_verbatim [OF assms])
  next
    case False
    from no_match_call [OF False] have none: "match_here ?re (c # cs) = None" .
    have "replace_first ?re new (c # cs) = c # replace_first ?re new cs"
      unfolding replace_first_def search.simps none
      by (simp add: get_substitution_verbatim [OF assms] split: option.split)
    with False Cons.IH show ?thesis by simp
  qed
qed

lemma call_arguments_call:
  "call_arguments d (''('' @ d @ '')('' @ args @ '')'') = Some (split_commas args)"
proof -
  let ?o = "''('' @ d @ '')(''"
  have a: "''('' @ d @ '')('' @ args @ '')'' = ?o @ args @ '')''" by simp
  have "suffix '')'' (?o @ args @ '')'')" by (metis append_assoc suffixI)
  moreover have "prefix ?o (?o @ args @ '')'')" by (rule prefixI) simp
  moreover have "butlast (drop (length ?o) (?o @ args @ '')'')) = args" by simp
  moreover have "take 1 (?o @ args @ '')'') \<noteq> '';''" by simp
  ultimately show ?thesis unfolding a call_arguments_def Let_def
    by (simp only: if_False if_True length_append) simp
qed

lemma call_arguments_statement:
  "call_arguments d ('';('' @ d @ '')('' @ args @ '')'') = Some (split_commas args)"
proof -
  have s: "'';('' @ d @ '')('' @ args @ '')'' = '';'' @ (''('' @ d @ '')('' @ args @ '')'')"
    by simp
  have e: "call_arguments d ('';'' @ (''('' @ d @ '')('' @ args @ '')''))
          = call_arguments d (''('' @ d @ '')('' @ args @ '')'')"
    unfolding call_arguments_def [of d "'';'' @ (''('' @ d @ '')('' @ args @ '')'')"]
      call_arguments_def [of d "''('' @ d @ '')('' @ args @ '')''"]
    by simp
  show ?thesis unfolding s e by (rule call_arguments_call)
qed

lemma run_remove_call:
  "run_call d m [(''__vite__id'', i)] (remove_call d) p = dispatch m i [] p"
proof -
  have "remove_call d = ''('' @ d @ '')('' @ (''__vite__id,'' @ [CHR 0x27, CHR 0x27]) @ '')''"
    by (simp add: remove_call_def)
  then have "call_arguments d (remove_call d) = Some [''__vite__id'', [CHR 0x27, CHR 0x27]]"
    by (simp only: call_arguments_call) simp
  then show ?thesis by (simp add: run_call_def argument_value_def)
qed

lemma run_update_call:
  "run_call d m [(''__vite__id'', i), (''__vite__css'', s)] (update_call d) p = dispatch m i s p"
proof -
  have "update_call d = '';('' @ d @ '')('' @ ''__vite__id,__vite__css'' @ '')''"
    by (simp add: update_call_def)
  then have "call_arguments d (update_call d) = Some [''__vite__id'', ''__vite__css'']"
    by (simp only: call_arguments_statement) simp
  then show ?thesis by (simp add: run_call_def argument_value_def)
qed

lemma registry_no_proto:
  assumes "exec sep h init_page = Some p"
  shows "''__proto__'' \<notin> fst ` set (registry m p)"
proof -
  have "fst ` set (registry m p) = set (map fst (registry m p))" by simp
  also have "\<dots> = set (map fst (stored (writes m h)))"
    by (simp only: exec_registry_keys [OF assms] first_write_order_set)
  finally show ?thesis by (auto simp: stored_def)
qed

lemma tombstone_keeps_order:
  assumes "i \<in> fst ` set obj"
  shows "object_keys (put i [] obj) = object_keys obj"
    and "object_values (put i [] obj) =
           map (\<lambda>k. if k = i then [] else get_prop obj k) (object_keys obj)"
proof -
  from assms show keys: "object_keys (put i [] obj) = object_keys obj"
    by (simp add: object_keys_def keys_put)
  show "object_values (put i [] obj) =
           map (\<lambda>k. if k = i then [] else get_prop obj k) (object_keys obj)"
    unfolding object_values_def keys
    by (rule map_cong) (simp_all add: get_prop_put_same get_prop_put_other)
qed

section \<open>Properties of the bundle rewrite\<close>

lemma those_map_Some: "(\<And>x. x \<in> set xs \<Longrightarrow> f x = Some (g x)) \<Longrightarrow> those (map f xs) = Some (map g xs)"
  by (induction xs) simp_all

lemma suffix_last: "suffix xs ys \<Longrightarrow> xs \<noteq> [] \<Longrightarrow> last ys = last xs"
  by (auto simp: suffix_def)

lemma html_not_css: "ends_with f ''.html'' \<Longrightarrow> \<not> ends_with f ''.css''"
proof
  assume "ends_with f ''.html''" and "ends_with f ''.css''"
  then have "last f = last ''.html''" and "last f = last ''.css''"
    unfolding ends_with_def by (intro suffix_last; simp)+
  then show False by simp
qed

lemma html_not_js: "ends_with f ''.html'' \<Longrightarrow> \<not> ends_with f ''.js''"
proof
  assume "ends_with f ''.html''" and "ends_with f ''.js''"
  then have "last f = last ''.html''" and "last f = last ''.js''"
    unfolding ends_with_def by (intro suffix_last; simp)+
  then show False by simp
qed

lemma fileName_stripped [simp]: "fileName (stripped_output out) = fileName out"
  by (cases out) (simp_all add: stripped_output_def)

lemma stripped_css: "ends_with (fileName out) ''.css'' \<Longrightarrow> stripped_output out = out"
  by (cases out) (auto simp: stripped_output_def dest: html_not_css)

lemma strip_html_total:
  assumes "ends_with (fileName out) ''.html'' \<longrightarrow> is_asset out"
  shows "strip_html out = Some (stripped_output out)"
  using assms by (cases out) (simp_all add: stripped_output_def is_asset_def)

lemma filter_css_stripped:
  "filter (\<lambda>out. ends_with (fileName out) ''.css'') (map stripped_output outs)
     = filter (\<lambda>out. ends_with (fileName out) ''.css'') outs"
  by (induction outs) (simp_all add: stripped_css)

lemma imported_sources_simps [simp]:
  "imported_sources [] imported = []"
  "imported_sources (OutputAsset g src # outs) imported =
     (if ends_with g ''.css'' \<and> g \<in> set imported then src # imported_sources outs imported
      else imported_sources outs imported)"
  "imported_sources (OutputChunk g n code meta # outs) imported = imported_sources outs imported"
  by (simp_all add: imported_sources_def)

lemma those_Some_map: "those (map (\<lambda>x. Some (g x)) xs) = Some (map g xs)"
  by (induction xs) simp_all

lemma css_sources_of_styles:
  assumes "\<And>c. c \<in> set outs \<Longrightarrow> ends_with (fileName c) ''.css'' \<Longrightarrow> is_asset c"
  shows "map css_source (filter (\<lambda>c. fileName c \<in> set imported)
           (filter (\<lambda>out. ends_with (fileName out) ''.css'') outs))
         = map (\<lambda>src. Some (css_literal src)) (imported_sources outs imported)"
  using assms
proof (induction outs)
  case Nil
  then show ?case by simp
next
  case (Cons c outs)
  have IH: "map css_source (filter (\<lambda>c. fileName c \<in> set imported)
           (filter (\<lambda>out. ends_with (fileName out) ''.css'') outs))
         = map (\<lambda>src. Some (css_literal src)) (imported_sources outs imported)"
    by (rule Cons.IH) (simp add: Cons.prems)
  show ?case
  proof (cases c)
    case (OutputAsset g src)
    with IH show ?thesis by simp
  next
    case (OutputChunk g n code meta)
    with Cons.prems [of c] have "\<not> ends_with g ''.css''" by (auto simp: is_asset_def)
    with OutputChunk IH show ?thesis by simp
  qed
qed

lemma inline_css_total:
  assumes "\<And>c. c \<in> set outs \<Longrightarrow> ends_with (fileName c) ''.css'' \<Longrightarrow> is_asset c"
  shows "inline_css appended sep (filter (\<lambda>out. ends_with (fileName out) ''.css'') outs) out
           = Some (inlined_output appended sep outs out)"
proof (cases out)
  case (OutputAsset f src)
  then show ?thesis by (simp add: inline_css_def inlined_output_def)
next
  case (OutputChunk f n code meta)
  show ?thesis
  proof (cases meta)
    case None
    with OutputChunk show ?thesis by (simp add: inline_css_def inlined_output_def)
  next
    case (Some imported)
    define styles where "styles = filter (\<lambda>c. fileName c \<in> set imported)
           (filter (\<lambda>out. ends_with (fileName out) ''.css'') outs)"
    have m: "map css_source styles
               = map (\<lambda>src. Some (css_literal src)) (imported_sources outs imported)"
      unfolding styles_def by (rule css_sources_of_styles [OF assms])
    then have t: "those (map css_source styles)
               = Some (map css_literal (imported_sources outs imported))"
      by (simp only: those_Some_map)
    from m have e: "styles = [] \<longleftrightarrow> imported_sources outs imported = []"
      by (metis map_is_Nil_conv)
    have "inline_css appended sep (filter (\<lambda>out. ends_with (fileName out) ''.css'') outs)
            (OutputChunk f n code (Some imported))
          = (if \<not> ends_with f ''.js'' then Some (OutputChunk f n code (Some imported))
             else if styles = [] then Some (OutputChunk f n code (Some imported))
             else (case those (map css_source styles) of
                    None \<Rightarrow> None
                  | Some texts \<Rightarrow> Some (OutputChunk f n (code @ appended n (join sep texts)) (Some []))))"
      unfolding styles_def inline_css_def Let_def by simp
    with OutputChunk Some t e show ?thesis
      by (simp add: inlined_output_def)
  qed
qed

lemma rewrite_bundle_total:
  assumes "\<And>c. c \<in> set outs \<Longrightarrow> ends_with (fileName c) ''.html'' \<or> ends_with (fileName c) ''.css''
             \<Longrightarrow> is_asset c"
  shows "rewrite_bundle appended sep outs
           = Some (map (inlined_output appended sep outs \<circ> stripped_output) outs)"
proof -
  have s: "those (map strip_html outs) = Some (map stripped_output outs)"
    by (rule those_map_Some) (simp add: strip_html_total assms)
  have css: "\<And>c. c \<in> set outs \<Longrightarrow> ends_with (fileName c) ''.css'' \<Longrightarrow> is_asset c"
    by (simp add: assms)
  have "those (map (inline_css appended sep
                      (filter (\<lambda>out. ends_with (fileName out) ''.css'') (map stripped_output outs)))
                 (map stripped_output outs))
        = Some (map (inlined_output appended sep outs) (map stripped_output outs))"
    unfolding filter_css_stripped
    by (rule those_map_Some) (rule inline_css_total [OF css])
  with s show ?thesis by (simp add: rewrite_bundle_def)
qed




lemma imported_sources_none [simp]: "imported_sources outs [] = []"
  by (induction outs) (simp_all add: imported_sources_def split: bundle_output.split)

section \<open>Properties of the link pattern\<close>

lemma dot_run_le: "dot_run t \<le> length t"
  by (simp add: dot_run_def length_takeWhile_le)

lemma match_here_bound: "match_here re t = Some n \<Longrightarrow> n \<le> length t"
proof (induction re arbitrary: t n)
  case Nil
  then show ?case by simp
next
  case (Cons it re)
  show ?case
  proof (cases it)
    case (Lit l)
    with Cons.prems obtain n' where p: "prefix l t" and m: "match_here re (drop (length l) t) = Some n'"
      and n: "n = length l + n'"
      by (auto split: if_splits)
    from p have "length l \<le> length t" by (rule prefix_length_le)
    with Cons.IH [OF m] n show ?thesis by simp
  next
    case AnyPlus
    with Cons.prems have "first_some (\<lambda>k. map_option (\<lambda>n. k + n) (match_here re (drop k t)))
            (rev [1..<Suc (dot_run t)]) = Some n" by simp
    from first_some_Some [OF this] obtain k where kin: "k \<in> set [1..<Suc (dot_run t)]"
      and fk: "map_option (\<lambda>n. k + n) (match_here re (drop k t)) = Some n"
      unfolding set_rev by blast
    from fk obtain n' where m: "match_here re (drop k t) = Some n'" and n: "n = k + n'"
      by (auto simp: map_option_case split: option.splits)
    from kin have k: "k \<le> dot_run t" by auto
    from k dot_run_le [of t] have "k \<le> length t" by simp
    with Cons.IH [OF m] n show ?thesis by simp
  next
    case AnyPlusLazy
    with Cons.prems have "first_some (\<lambda>k. map_option (\<lambda>n. k + n) (match_here re (drop k t)))
            [1..<Suc (dot_run t)] = Some n" by simp
    from first_some_Some [OF this] obtain k where kin: "k \<in> set [1..<Suc (dot_run t)]"
      and fk: "map_option (\<lambda>n. k + n) (match_here re (drop k t)) = Some n"
      unfolding set_rev by blast
    from fk obtain n' where m: "match_here re (drop k t) = Some n'" and n: "n = k + n'"
      by (auto simp: map_option_case split: option.splits)
    from kin have k: "k \<le> dot_run t" by auto
    from k dot_run_le [of t] have "k \<le> length t" by simp
    with Cons.IH [OF m] n show ?thesis by simp
  qed
qed

lemma sublist_take_drop:
  "sublist l (take n' (drop k t)) \<Longrightarrow> sublist l (take (k + n') t)"
proof -
  assume a: "sublist l (take n' (drop k t))"
  have "take (k + n') t = take k t @ take n' (drop k t)" by (simp add: take_add)
  with a show ?thesis by (metis sublist_append_leftI sublist_order.order.trans)
qed

lemma match_here_literal:
  "match_here re t = Some n \<Longrightarrow> Lit l \<in> set re \<Longrightarrow> sublist l (take n t)"
proof (induction re arbitrary: t n)
  case Nil
  then show ?case by simp
next
  case (Cons it re)
  show ?case
  proof (cases it)
    case (Lit l')
    with Cons.prems(1) obtain n' where p: "prefix l' t" and m: "match_here re (drop (length l') t) = Some n'"
      and n: "n = length l' + n'"
      by (auto split: if_splits)
    show ?thesis
    proof (cases "l = l'")
      case True
      from p have "take (length l') t = l'" by (metis append_eq_conv_conj prefix_def)
      then have "take n t = l' @ take n' (drop (length l') t)" by (simp add: n take_add)
      then show ?thesis by (simp add: True)
    next
      case False
      with Cons.prems(2) Lit have "Lit l \<in> set re" by simp
      from Cons.IH [OF m this] show ?thesis unfolding n by (rule sublist_take_drop)
    qed
  next
    case AnyPlus
    with Cons.prems have "first_some (\<lambda>k. map_option (\<lambda>n. k + n) (match_here re (drop k t)))
            (rev [1..<Suc (dot_run t)]) = Some n" and in_re: "Lit l \<in> set re" by simp_all
    from first_some_Some [OF this(1)] obtain k where
      fk: "map_option (\<lambda>n. k + n) (match_here re (drop k t)) = Some n"
      by blast
    from fk obtain n' where m: "match_here re (drop k t) = Some n'" and n: "n = k + n'"
      by (auto simp: map_option_case split: option.splits)
    from Cons.IH [OF m in_re] show ?thesis unfolding n by (rule sublist_take_drop)
  next
    case AnyPlusLazy
    with Cons.prems have "first_some (\<lambda>k. map_option (\<lambda>n. k + n) (match_here re (drop k t)))
            [1..<Suc (dot_run t)] = Some n" and in_re: "Lit l \<in> set re" by simp_all
    from first_some_Some [OF this(1)] obtain k where
      fk: "map_option (\<lambda>n. k + n) (match_here re (drop k t)) = Some n"
      by blast
    from fk obtain n' where m: "match_here re (drop k t) = Some n'" and n: "n = k + n'"
      by (auto simp: map_option_case split: option.splits)
    from Cons.IH [OF m in_re] show ?thesis unfolding n by (rule sublist_take_drop)
  qed
qed

lemma remove_matches_none:
  "(\<And>i. i \<le> length s \<Longrightarrow> match_here re (drop i s) = None) \<Longrightarrow> remove_matches re 0 s = s"
proof (induction s)
  case Nil
  then show ?case by simp
next
  case (Cons c s)
  from Cons.prems [of 0] have here: "match_here re (c # s) = None" by simp
  have "match_here re (drop i s) = None" if "i \<le> length s" for i
    using Cons.prems [of "Suc i"] that by simp
  from Cons.IH [OF this] here show ?case by simp
qed

lemma remove_matches_absent:
  assumes "Lit l \<in> set re" and "\<not> sublist l s"
  shows "remove_matches re 0 s = s"
proof (rule remove_matches_none)
  fix i
  show "match_here re (drop i s) = None"
  proof (rule ccontr)
    assume "match_here re (drop i s) \<noteq> None"
    then obtain n where "match_here re (drop i s) = Some n" by blast
    from match_here_literal [OF this assms(1)] have "sublist l (take n (drop i s))" .
    then have "sublist l (drop i s)"
      by (metis append_take_drop_id sublist_append_rightI sublist_order.order.trans)
    then have "sublist l s" using sublist_drop [of i s] by (meson sublist_order.order.trans)
    with assms(2) show False by simp
  qed
qed

lemma first_some_cong_all: "\<forall>k\<in>set ks. f k = g k \<Longrightarrow> first_some f ks = first_some g ks"
  by (induction ks) (auto split: option.splits)

lemma first_some_cong: "(\<And>k. k \<in> set ks \<Longrightarrow> f k = g k) \<Longrightarrow> first_some f ks = first_some g ks"
  by (rule first_some_cong_all) blast

lemma dot_run_all: "\<forall>c\<in>set x. \<not> line_terminator c \<Longrightarrow> dot_run x = length x"
proof -
  assume "\<forall>c\<in>set x. \<not> line_terminator c"
  then have "takeWhile (\<lambda>c. \<not> line_terminator c) x = x"
    by (simp only: takeWhile_eq_all_conv)
  then show ?thesis by (simp only: dot_run_def)
qed

lemma dot_run_line:
  "\<forall>c\<in>set x. \<not> line_terminator c \<Longrightarrow> line_terminator lt \<Longrightarrow> dot_run (x @ lt # rest) = length x"
  by (simp add: dot_run_append) (simp add: dot_run_def)

lemma prefix_line:
  assumes "\<forall>c\<in>set l. \<not> line_terminator c" and "line_terminator lt"
  shows "prefix l (x @ lt # rest) \<longleftrightarrow> prefix l x"
proof
  assume "prefix l (x @ lt # rest)"
  then consider "prefix l x" | us where "l = x @ us" "prefix us (lt # rest)"
    by (auto simp: prefix_append)
  then show "prefix l x"
  proof cases
    case 1
    then show ?thesis .
  next
    case 2
    show ?thesis
    proof (cases us)
      case Nil
      with 2 show ?thesis by simp
    next
      case (Cons u us')
      with 2 have "u = lt" by simp
      with 2 Cons assms show ?thesis by auto
    qed
  qed
next
  assume "prefix l x"
  then show "prefix l (x @ lt # rest)" by (rule prefix_prefix)
qed

lemma match_here_line:
  assumes "\<And>l. Lit l \<in> set re \<Longrightarrow> \<forall>c\<in>set l. \<not> line_terminator c"
    and "line_terminator lt" and "\<forall>c\<in>set x. \<not> line_terminator c"
  shows "match_here re (x @ lt # rest) = match_here re x"
  using assms
proof (induction re arbitrary: x)
  case Nil
  then show ?case by simp
next
  case (Cons it re)
  have lits: "\<And>l. Lit l \<in> set re \<Longrightarrow> \<forall>c\<in>set l. \<not> line_terminator c"
    by (rule Cons.prems(1)) simp
  have IH: "match_here re (drop k x @ lt # rest) = match_here re (drop k x)" for k
  proof (rule Cons.IH [OF lits Cons.prems(2)])
    show "\<forall>c\<in>set (drop k x). \<not> line_terminator c"
      using Cons.prems(3) by (meson in_set_dropD)
  qed
  have within: "drop k (x @ lt # rest) = drop k x @ lt # rest" if "k \<le> length x" for k
    using that by simp
  have runs: "dot_run (x @ lt # rest) = dot_run x"
    by (simp add: dot_run_line [OF Cons.prems(3,2)] dot_run_all [OF Cons.prems(3)])
  show ?case
  proof (cases it)
    case (Lit l)
    have l: "\<forall>c\<in>set l. \<not> line_terminator c" by (rule Cons.prems(1)) (simp add: Lit)
    show ?thesis
    proof (cases "prefix l x")
      case True
      then have "length l \<le> length x" by (rule prefix_length_le)
      with True IH [of "length l"] show ?thesis
        by (simp add: Lit prefix_line [OF l Cons.prems(2)])
    next
      case False
      then show ?thesis by (simp add: Lit prefix_line [OF l Cons.prems(2)])
    qed
  next
    case AnyPlus
    have "first_some (\<lambda>k. map_option (\<lambda>n. k + n) (match_here re (drop k (x @ lt # rest))))
            (rev [1..<Suc (dot_run x)])
          = first_some (\<lambda>k. map_option (\<lambda>n. k + n) (match_here re (drop k x)))
            (rev [1..<Suc (dot_run x)])"
    proof (rule first_some_cong)
      fix k assume "k \<in> set (rev [1..<Suc (dot_run x)])"
      then have "k \<le> length x" using dot_run_le [of x] by auto
      with IH [of k] show "map_option (\<lambda>n. k + n) (match_here re (drop k (x @ lt # rest)))
          = map_option (\<lambda>n. k + n) (match_here re (drop k x))" by simp
    qed
    then show ?thesis by (simp add: AnyPlus runs)
  next
    case AnyPlusLazy
    have "first_some (\<lambda>k. map_option (\<lambda>n. k + n) (match_here re (drop k (x @ lt # rest))))
            [1..<Suc (dot_run x)]
          = first_some (\<lambda>k. map_option (\<lambda>n. k + n) (match_here re (drop k x)))
            [1..<Suc (dot_run x)]"
    proof (rule first_some_cong)
      fix k assume "k \<in> set [1..<Suc (dot_run x)]"
      then have "k \<le> length x" using dot_run_le [of x] by auto
      with IH [of k] show "map_option (\<lambda>n. k + n) (match_here re (drop k (x @ lt # rest)))
          = map_option (\<lambda>n. k + n) (match_here re (drop k x))" by simp
    qed
    then show ?thesis by (simp add: AnyPlusLazy runs)
  qed
qed

lemma remove_matches_line:
  assumes "\<And>l. Lit l \<in> set re \<Longrightarrow> \<forall>c\<in>set l. \<not> line_terminator c"
    and "line_terminator lt"
  shows "\<forall>c\<in>set x. \<not> line_terminator c \<Longrightarrow> k \<le> length x \<Longrightarrow>
         remove_matches re k (x @ lt # rest) = remove_matches re k x @ lt # remove_matches re 0 rest"
proof (induction x arbitrary: k)
  case Nil
  have m: "match_here re (lt # rest) = match_here re []"
    using match_here_line [OF assms, where x = "[]" and rest = rest] by simp
  show ?case
  proof (cases "match_here re []")
    case None
    with m Nil show ?thesis by simp
  next
    case (Some n)
    from match_here_bound [OF this] have "n = 0" by simp
    with Some m Nil show ?thesis by simp
  qed
next
  case (Cons c x)
  have plain: "\<forall>c\<in>set x. \<not> line_terminator c" using Cons.prems(1) by simp
  show ?case
  proof (cases k)
    case (Suc k')
    with Cons.prems(2) have "k' \<le> length x" by simp
    from Cons.IH [OF plain this] show ?thesis by (simp add: Suc)
  next
    case 0
    have m: "match_here re (c # x @ lt # rest) = match_here re (c # x)"
      using match_here_line [OF assms Cons.prems(1), where rest = rest] by simp
    show ?thesis
    proof (cases "match_here re (c # x)")
      case None
      with m Cons.IH [OF plain, of 0] show ?thesis by (simp add: 0)
    next
      case (Some n)
      show ?thesis
      proof (cases n)
        case 0
        with Some m Cons.IH [OF plain, of 0] \<open>k = 0\<close> show ?thesis by simp
      next
        case (Suc n')
        from match_here_bound [OF Some] Suc have "n' \<le> length x" by simp
        from Cons.IH [OF plain this] Some m Suc \<open>k = 0\<close> show ?thesis by simp
      qed
    qed
  qed
qed

lemma link_pattern_plain: "Lit l \<in> set link_pattern \<Longrightarrow> \<forall>c\<in>set l. \<not> line_terminator c"
  by (auto simp: link_pattern_def line_terminator_def)

lemma strip_links_line:
  assumes "\<forall>c\<in>set line. \<not> line_terminator c" and "line_terminator lt"
  shows "strip_links (line @ lt # rest) = strip_links line @ lt # strip_links rest"
  unfolding strip_links_def
  by (rule remove_matches_line [OF link_pattern_plain assms(2) assms(1)]) simp_all

lemma candidate_iff: "k \<in> set (rev [1..<Suc r]) \<longleftrightarrow> 1 \<le> k \<and> k \<le> r"
  by auto

lemma suffix_take_drop:
  "suffix c (take n' (drop k t)) \<Longrightarrow> suffix c (take (k + n') t)"
  by (simp add: take_add suffix_appendI)

lemma match_here_last:
  "match_here (items @ [Lit c]) t = Some n \<Longrightarrow> suffix c (take n t)"
proof (induction items arbitrary: t n)
  case Nil
  then have "prefix c t" and "n = length c" by (auto split: if_splits)
  then have "take n t = c" by (metis append_eq_conv_conj prefix_def)
  then show ?case by simp
next
  case (Cons it items)
  show ?case
  proof (cases it)
    case (Lit l)
    with Cons.prems obtain n' where m: "match_here (items @ [Lit c]) (drop (length l) t) = Some n'"
      and n: "n = length l + n'"
      by (auto split: if_splits)
    from Cons.IH [OF m] show ?thesis unfolding n by (rule suffix_take_drop)
  next
    case AnyPlus
    with Cons.prems have "first_some (\<lambda>k. map_option (\<lambda>n. k + n) (match_here (items @ [Lit c]) (drop k t)))
            (rev [1..<Suc (dot_run t)]) = Some n" by simp
    from first_some_Some [OF this] obtain k where
      fk: "map_option (\<lambda>n. k + n) (match_here (items @ [Lit c]) (drop k t)) = Some n"
      by blast
    then obtain n' where m: "match_here (items @ [Lit c]) (drop k t) = Some n'" and n: "n = k + n'"
      by (auto simp: map_option_case split: option.splits)
    from Cons.IH [OF m] show ?thesis unfolding n by (rule suffix_take_drop)
  next
    case AnyPlusLazy
    with Cons.prems have "first_some (\<lambda>k. map_option (\<lambda>n. k + n) (match_here (items @ [Lit c]) (drop k t)))
            [1..<Suc (dot_run t)] = Some n" by simp
    from first_some_Some [OF this] obtain k where
      fk: "map_option (\<lambda>n. k + n) (match_here (items @ [Lit c]) (drop k t)) = Some n"
      by blast
    then obtain n' where m: "match_here (items @ [Lit c]) (drop k t) = Some n'" and n: "n = k + n'"
      by (auto simp: map_option_case split: option.splits)
    from Cons.IH [OF m] show ?thesis unfolding n by (rule suffix_take_drop)
  qed
qed

lemma match_ends_at_last_char:
  assumes "match_here (items @ [Lit (c @ [e])]) (drop k (X @ [e])) = Some n" and "e \<notin> set X"
  shows "k + n = length (X @ [e])"
proof -
  let ?s = "X @ [e]" and ?t = "drop k (X @ [e])"
  from match_here_bound [OF assms(1)] have bound: "n \<le> length ?t" .
  from match_here_last [OF assms(1)] obtain w where w: "take n ?t = w @ c @ [e]"
    by (auto simp: suffix_def)
  then have "length (take n ?t) = length w + length c + 1" by simp
  with bound have n: "n = length w + length c + 1" by simp
  then have pos: "0 < n" by simp
  from w have last_e: "take n ?t ! (n - 1) = e" by (simp add: n nth_append)
  have "take n ?t ! (n - 1) = ?t ! (n - 1)" by (rule nth_take) (use pos in simp)
  with last_e have t_at: "?t ! (n - 1) = e" by (simp only:)
  from bound pos have in_range: "k + (n - 1) < length ?s" by simp
  then have "k \<le> length ?s" by simp
  then have "?t ! (n - 1) = ?s ! (k + (n - 1))" by (rule nth_drop)
  with t_at have at: "?s ! (k + (n - 1)) = e" by (simp only:)
  have "k + (n - 1) = length X"
  proof (rule ccontr)
    assume "k + (n - 1) \<noteq> length X"
    with in_range have "k + (n - 1) < length X" by simp
    with at have "X ! (k + (n - 1)) = e" by (simp add: nth_append)
    with \<open>k + (n - 1) < length X\<close> assms(2) show False by (metis nth_mem)
  qed
  with pos show ?thesis by simp
qed

lemma greedy_tail_exists:
  assumes "path \<noteq> []" and "\<forall>c\<in>set path. \<not> line_terminator c" and "\<forall>c\<in>set l. \<not> line_terminator c"
  shows "match_here [AnyPlus, Lit l] (path @ l) \<noteq> None"
proof -
  let ?G = "\<lambda>k. map_option (\<lambda>n. k + n) (match_here [Lit l] (drop k (path @ l)))"
  have "\<forall>c\<in>set (path @ l). \<not> line_terminator c" using assms(2,3) by auto
  from dot_run_all [OF this] have run: "dot_run (path @ l) = length path + length l" by simp
  have "?G (length path) = Some (length path + length l)" by simp
  moreover from assms(1) have "1 \<le> length path" by (cases path) simp_all
  then have "length path \<in> set (rev [1..<Suc (dot_run (path @ l))])"
    unfolding candidate_iff run by simp
  ultimately have "first_some ?G (rev [1..<Suc (dot_run (path @ l))]) \<noteq> None"
    unfolding first_some_None_iff by force
  then show ?thesis by simp
qed

lemma first_some_exists: "k \<in> set ks \<Longrightarrow> f k \<noteq> None \<Longrightarrow> first_some f ks \<noteq> None"
  by (induction ks) (auto split: option.splits)

lemma link_tag_match:
  assumes "attrs \<noteq> []" and "path \<noteq> []"
    and "\<forall>c\<in>set (attrs @ path). \<not> line_terminator c \<and> c \<noteq> CHR ''>''"
  shows \<open>match_here link_pattern (''<link'' @ attrs @ ''href="./'' @ path @ ''.css">'')
           = Some (length (''<link'' @ attrs @ ''href="./'' @ path @ ''.css">''))\<close>
proof -
  let ?H = \<open>''href="./''\<close> and ?C = \<open>''.css"''\<close>
  define X where "X = attrs @ ?H @ path @ ?C"
  define s where "s = X @ [CHR ''>'']"
  define R where "R = [Lit ?H, AnyPlus, Lit (?C @ [CHR ''>''])]"
  define F where "F = (\<lambda>k. map_option (\<lambda>n. k + n) (match_here R (drop k s)))"
  define ks where "ks = rev [1..<Suc (dot_run s)]"
  have plain_path: "\<forall>c\<in>set path. \<not> line_terminator c"
    using assms(3) by auto
  have plain_s: "\<forall>c\<in>set s. \<not> line_terminator c"
    using assms(3) by (auto simp: s_def X_def line_terminator_def)
  have no_gt: "CHR ''>'' \<notin> set X" using assms(3) by (auto simp: X_def)
  have run: "dot_run s = length s" by (rule dot_run_all [OF plain_s])
  have tail: "match_here [AnyPlus, Lit (?C @ [CHR ''>''])] (path @ ?C @ [CHR ''>'']) \<noteq> None"
    by (rule greedy_tail_exists [OF assms(2) plain_path]) (simp add: line_terminator_def)
  then obtain n2 where n2: "match_here [AnyPlus, Lit (?C @ [CHR ''>''])] (path @ ?C @ [CHR ''>'']) = Some n2"
    by blast
  have "drop (length attrs) s = ?H @ path @ ?C @ [CHR ''>'']" by (simp add: s_def X_def)
  then have "match_here R (drop (length attrs) s) = Some (length ?H + n2)"
    using n2 by (simp add: R_def)
  then have at: "F (length attrs) \<noteq> None" by (simp add: F_def)
  from assms(1) have "1 \<le> length attrs" by (cases attrs) simp_all
  moreover have "length attrs \<le> length s" by (simp add: s_def X_def)
  ultimately have "length attrs \<in> set ks" unfolding ks_def candidate_iff run by simp
  from first_some_exists [of "length attrs" ks F, OF this at] obtain v where v: "first_some F ks = Some v" by blast
  from first_some_Some [OF v] obtain k where "F k = Some v" by blast
  then obtain n where m: "match_here R (drop k s) = Some n" and vn: "v = k + n"
    by (auto simp: F_def map_option_case split: option.splits)
  have "match_here ([Lit ?H, AnyPlus] @ [Lit (?C @ [CHR ''>''])]) (drop k (X @ [CHR ''>''])) = Some n"
    using m by (simp add: R_def s_def)
  from match_ends_at_last_char [OF this no_gt] vn have "v = length s" by (simp add: s_def)
  define Q where "Q = AnyPlus # R"
  from \<open>v = length s\<close> v have whole: "match_here Q s = Some (length s)"
    by (simp add: Q_def F_def ks_def)
  have m5: "match_here (Lit ''<link'' # Q) (''<link'' @ s) = Some (5 + length s)"
    using whole by simp
  have tg: \<open>''<link'' @ attrs @ ''href="./'' @ path @ ''.css">'' = ''<link'' @ s\<close>
    by (simp add: s_def X_def)
  have lp: "link_pattern = Lit ''<link'' # Q"
    by (simp add: link_pattern_def Q_def R_def)
  have len: "length (''<link'' @ s) = 5 + length s" by simp
  show ?thesis unfolding lp tg len by (rule m5)
qed

lemma remove_matches_copy:
  "\<forall>c\<in>set pre. \<forall>t. match_here re (c # t) = None \<Longrightarrow>
   remove_matches re 0 (pre @ s) = pre @ remove_matches re 0 s"
  by (induction pre) simp_all

lemma remove_matches_all: "length s \<le> k \<Longrightarrow> remove_matches re k s = []"
proof (induction s arbitrary: k)
  case Nil
  then show ?case by simp
next
  case (Cons c s)
  then show ?case by (cases k) simp_all
qed

lemma remove_matches_whole:
  assumes "match_here re s = Some (length s)"
  shows "remove_matches re 0 s = []"
proof (cases s)
  case Nil
  then show ?thesis by simp
next
  case (Cons c s')
  with assms show ?thesis by (simp add: remove_matches_all)
qed

lemma strip_links_tag:
  assumes "CHR ''<'' \<notin> set pre" and "attrs \<noteq> []" and "path \<noteq> []"
    and "\<forall>c\<in>set (attrs @ path). \<not> line_terminator c \<and> c \<noteq> CHR ''>''"
  shows \<open>strip_links (pre @ ''<link'' @ attrs @ ''href="./'' @ path @ ''.css">'') = pre\<close>
proof -
  have "\<forall>c\<in>set pre. \<forall>t. match_here link_pattern (c # t) = None"
    using assms(1) by (auto simp: link_pattern_def)
  from remove_matches_copy [OF this]
    remove_matches_whole [OF link_tag_match [OF assms(2,3,4)]]
  show ?thesis by (simp add: strip_links_def)
qed

lemma link_pattern_href: \<open>Lit ''href="./'' \<in> set link_pattern\<close>
  by (simp add: link_pattern_def)

lemma strip_links_no_local_href: \<open>\<not> sublist ''href="./'' src \<Longrightarrow> strip_links src = src\<close>
  unfolding strip_links_def by (rule remove_matches_absent [OF link_pattern_href])

lemma html_assets_stripped:
  assumes "\<forall>c\<in>set outs. ends_with (fileName c) ''.html'' \<or> ends_with (fileName c) ''.css''
             \<longrightarrow> is_asset c"
  shows "\<exists>outs'. generateBundle dc outs = Some outs' \<and> length outs' = length outs
           \<and> (\<forall>k<length outs. \<forall>f src. outs ! k = OutputAsset f src \<longrightarrow> ends_with f ''.html''
                 \<longrightarrow> outs' ! k = OutputAsset f (strip_links src))"
proof -
  let ?g = "inlined_output (appended_call dc) [] outs \<circ> stripped_output"
  have total: "generateBundle dc outs = Some (map ?g outs)"
    unfolding generateBundle_def by (rule rewrite_bundle_total) (use assms in blast)
  have "\<forall>k<length outs. \<forall>f src. outs ! k = OutputAsset f src \<longrightarrow> ends_with f ''.html''
                 \<longrightarrow> map ?g outs ! k = OutputAsset f (strip_links src)"
    by (simp add: inlined_output_def stripped_output_def)
  with total show ?thesis by simp
qed

section \<open>Evaluation on concrete pages\<close>

lemmas page_eval =
  dispatch_def dispatch2_def dispatch_with_def getStyle_def dispatchEvent_def
  addEventListener_def init_page_def Let_def run_Fire run_Replay run_Subscriber
  listeners_for_def styles_key_def request_key_def set_prop_def registry_def aggregate_def

lemmas object_eval =
  object_values_def object_keys_def own_key_order_def get_prop_def array_index_def
  index_of_def decimal_def is_digit_def

lemmas writes_eval =
  key_order_aggregate_def claimed_aggregate_def stored_def latest_text_def

section \<open>The claims about the style runtime\<close>

text \<open>
  C1 (as amended). After any history of dispatcher calls and style element creations
  that ends with a dispatcher call for a name, the last event dispatched is the styles
  event of that name, and its detail, which is also the text of every style element
  subscribed to that name, is the join (with the implementation's separator, empty in
  the first implementation) of the latest text of each fragment id, the ids taken in
  the key order of a JavaScript object: ids that are array indices first, in ascending
  numeric order, then the other ids in first-write order. A removed fragment contributes
  the empty text and keeps its place; a write under the id \<^verbatim>\<open>__proto__\<close> is not
  stored.
\<close>

theorem aggregate_in_key_order:
  "\<exists>p. exec sep (h @ [Publish m i s]) init_page = Some p
      \<and> dispatched p \<noteq> []
      \<and> last (dispatched p) =
          CustomEvent (styles_key m) (Some (key_order_aggregate sep (writes m (h @ [Publish m i s]))))
      \<and> (\<forall>el \<in> set (subscribers m p).
            elements p ! el = key_order_aggregate sep (writes m (h @ [Publish m i s])))"
proof -
  obtain p0 where p0: "exec sep h init_page = Some p0" "good sep p0"
    by (rule exec_init)
  let ?p = "published sep m i s p0"
  from p0(2) have wf0: "wf sep p0" and sy0: "synced sep p0" by (simp_all add: good_def)
  have e: "exec sep (h @ [Publish m i s]) init_page = Some ?p"
    by (simp add: exec_append p0(1) dispatch_with_published [OF wf0])
  have agg: "aggregate sep m ?p = key_order_aggregate sep (writes m (h @ [Publish m i s]))"
    by (rule exec_aggregate [OF e])
  have "synced sep ?p" by (rule published_synced [OF wf0 sy0])
  then have "\<forall>el \<in> set (subscribers m ?p). elements ?p ! el = aggregate sep m ?p"
    unfolding synced_def by blast
  with e agg show ?thesis
    by (simp add: published_dispatched [of sep m i s p0])
qed

theorem aggregate_in_key_order_witness:
  "\<exists>p. exec [] ([Publish ''app'' ''main'' ''a{}'', Subscribe ''app''] @ [Publish ''app'' ''404'' ''b{}''])
          init_page = Some p
     \<and> last (dispatched p) = CustomEvent ''app-styles'' (Some ''b{}a{}'')
     \<and> 0 \<in> set (subscribers ''app'' p) \<and> elements p ! 0 = ''b{}a{}''"
proof -
  let ?h = "[Publish ''app'' ''main'' ''a{}'', Subscribe ''app'']"
  have k: "key_order_aggregate [] (writes ''app'' (?h @ [Publish ''app'' ''404'' ''b{}''])) = ''b{}a{}''"
    by (simp add: writes_eval object_eval)
  from aggregate_in_key_order [of "[]" ?h "''app''" "''404''" "''b{}''"]
  obtain p where p: "exec [] (?h @ [Publish ''app'' ''404'' ''b{}'']) init_page = Some p"
    "last (dispatched p) = CustomEvent (styles_key ''app'') (Some ''b{}a{}'')"
    "\<forall>el \<in> set (subscribers ''app'' p). elements p ! el = ''b{}a{}''"
    unfolding k by blast
  from p(1) have "subscribers ''app'' p = [0]"
    by (auto simp: page_eval object_eval subscribers_def)
  with p show ?thesis by (simp add: styles_key_def)
qed

text \<open>
  C1 as stated fails: the chunk \<^verbatim>\<open>main\<close> publishes first and the chunk \<^verbatim>\<open>404\<close>
  second, and the styles event carries the text of \<^verbatim>\<open>404\<close> first, while the
  first-write order puts it last.
\<close>

theorem first_write_order_counterexample:
  "map_option (last \<circ> dispatched)
     (Option.bind (dispatch ''app'' ''main'' ''a{}'' init_page) (dispatch ''app'' ''404'' ''b{}''))
     = Some (CustomEvent ''app-styles'' (Some ''b{}a{}''))
   \<and> claimed_aggregate [(''main'', ''a{}''), (''404'', ''b{}'')] = ''a{}b{}''
   \<and> map_option (last \<circ> dispatched)
       (Option.bind (dispatch ''app'' ''main'' ''a{}'' init_page) (dispatch ''app'' ''404'' ''b{}''))
     \<noteq> Some (CustomEvent ''app-styles''
                (Some (claimed_aggregate [(''main'', ''a{}''), (''404'', ''b{}'')])))"
  by (simp add: page_eval object_eval writes_eval)

text \<open>
  C2. After a history with at least one dispatcher call for a name, \<^verbatim>\<open>getStyle\<close>
  returns: its request event is answered, within the same call, by one styles event of
  that name whose detail is the aggregate of the registry as the history left it, and
  the new style element holds that aggregate. The registry is not changed.
\<close>

theorem replay_delivers_aggregate:
  assumes "Publish m i s \<in> set h"
  shows "\<exists>p el p'. exec sep h init_page = Some p \<and> getStyle m p = Some (el, p')
           \<and> el = length (elements p) \<and> length (elements p') = Suc el
           \<and> elements p' ! el = aggregate sep m p
           \<and> dispatched p' = dispatched p @ [CustomEvent (request_key m) None,
                                 CustomEvent (styles_key m) (Some (aggregate sep m p))]
           \<and> aggregate sep m p = key_order_aggregate sep (writes m h)
           \<and> registry m p' = registry m p"
proof -
  obtain p where p: "exec sep h init_page = Some p" "good sep p"
    by (rule exec_init)
  from p(2) have wfp: "wf sep p" by (simp add: good_def)
  from exec_window_published [OF good_init p(1) assms]
  obtain a where a: "window p (styles_key m) = Some a" by blast
  have "getStyle m p = Some (length (elements p), subscribed sep m p)"
    by (rule getStyle_subscribed [OF wfp])
  with p(1) subscribed_new_element [OF wfp a] subscribed_dispatched_some [OF a, of sep]
    exec_aggregate [OF p(1), of m]
  show ?thesis by simp
qed

theorem replay_delivers_aggregate_witness:
  "Publish ''app'' ''main'' ''a{}'' \<in> set [Publish ''app'' ''main'' ''a{}'', Publish ''app'' ''lazy'' ''b{}'']
   \<and> (\<exists>p el p'. exec [] [Publish ''app'' ''main'' ''a{}'', Publish ''app'' ''lazy'' ''b{}''] init_page = Some p
         \<and> getStyle ''app'' p = Some (el, p') \<and> el = 0 \<and> elements p' = [''a{}b{}'']
         \<and> last (dispatched p') = CustomEvent ''app-styles'' (Some ''a{}b{}''))"
proof -
  let ?h = "[Publish ''app'' ''main'' ''a{}'', Publish ''app'' ''lazy'' ''b{}'']"
  have m: "Publish ''app'' ''main'' ''a{}'' \<in> set ?h" by simp
  have k: "key_order_aggregate [] (writes ''app'' ?h) = ''a{}b{}''"
    by (simp add: writes_eval object_eval)
  have e: "elements (the (exec [] ?h init_page)) = []"
    by (simp add: page_eval object_eval)
  from replay_delivers_aggregate [OF m, of "[]"]
  obtain p el p' where p: "exec [] ?h init_page = Some p" "getStyle ''app'' p = Some (el, p')"
    "el = length (elements p)" "length (elements p') = Suc el"
    "elements p' ! el = aggregate [] ''app'' p"
    "dispatched p' = dispatched p @ [CustomEvent (request_key ''app'') None,
         CustomEvent (styles_key ''app'') (Some (aggregate [] ''app'' p))]"
    "aggregate [] ''app'' p = key_order_aggregate [] (writes ''app'' ?h)"
    by blast
  from e p(1) have "elements p = []" by simp
  with p(3,4,5,7) k have "el = 0" "elements p' = [''a{}b{}'']"
    by (simp_all add: length_Suc_conv) auto
  moreover from p(6,7) k have "last (dispatched p') = CustomEvent ''app-styles'' (Some ''a{}b{}'')"
    by (simp add: styles_key_def)
  ultimately show ?thesis using m p(1,2) by blast
qed

text \<open>
  C3. The same fragment id and text dispatched twice in a row for a name: the second
  call leaves the page of the first unchanged apart from the events it dispatches, so
  registry and aggregate are those of a single call, and each of the two calls
  dispatches its own request event and styles event.
\<close>

theorem publish_twice_state_once_events_twice:
  "\<exists>p p1 p2. exec [] h init_page = Some p
     \<and> dispatch m i s p = Some p1 \<and> dispatch m i s p1 = Some p2
     \<and> dispatched p1 = dispatched p @ [Event (request_key m),
                            CustomEvent (styles_key m) (Some (aggregate [] m p1))]
     \<and> p2 = p1\<lparr>dispatched := dispatched p1 @ [Event (request_key m),
                            CustomEvent (styles_key m) (Some (aggregate [] m p1))]\<rparr>
     \<and> registry m p2 = registry m p1 \<and> aggregate [] m p2 = aggregate [] m p1"
proof -
  obtain p where p: "exec [] h init_page = Some p" "good [] p"
    by (rule exec_init)
  from p(2) have wfp: "wf [] p" by (simp add: good_def)
  let ?p1 = "published [] m i s p"
  let ?p2 = "published [] m i s ?p1"
  have d1: "dispatch m i s p = Some ?p1"
    by (simp add: dispatch_def dispatch_with_published [OF wfp])
  have d2: "dispatch m i s ?p1 = Some ?p2"
    by (simp add: dispatch_def dispatch_with_published [OF published_wf [OF wfp]])
  have eq: "?p2 = ?p1\<lparr>dispatched := dispatched ?p1 @ [Event (request_key m),
                            CustomEvent (styles_key m) (Some (aggregate [] m ?p1))]\<rparr>"
    by (rule published_twice)
  have "registry m ?p2 = registry m ?p1" "aggregate [] m ?p2 = aggregate [] m ?p1"
    by (subst eq, simp)+
  with p(1) d1 d2 eq published_dispatched [of "[]" m i s p] show ?thesis by blast
qed

theorem publish_twice_state_once_events_twice_witness:
  "\<exists>p1 p2. dispatch ''app'' ''main'' ''a{}'' init_page = Some p1
     \<and> dispatch ''app'' ''main'' ''a{}'' p1 = Some p2
     \<and> dispatched p1 = [Event ''app-styles-request'', CustomEvent ''app-styles'' (Some ''a{}'')]
     \<and> dispatched p2 = [Event ''app-styles-request'', CustomEvent ''app-styles'' (Some ''a{}''),
                        Event ''app-styles-request'', CustomEvent ''app-styles'' (Some ''a{}'')]
     \<and> registry ''app'' p2 = registry ''app'' p1"
proof -
  from publish_twice_state_once_events_twice [of "[]" "''app''" "''main''" "''a{}''"]
  obtain p p1 p2 where p: "exec [] [] init_page = Some p
     \<and> dispatch ''app'' ''main'' ''a{}'' p = Some p1 \<and> dispatch ''app'' ''main'' ''a{}'' p1 = Some p2
     \<and> dispatched p1 = dispatched p @ [Event (request_key ''app''),
                            CustomEvent (styles_key ''app'') (Some (aggregate [] ''app'' p1))]
     \<and> p2 = p1\<lparr>dispatched := dispatched p1 @ [Event (request_key ''app''),
                            CustomEvent (styles_key ''app'') (Some (aggregate [] ''app'' p1))]\<rparr>
     \<and> registry ''app'' p2 = registry ''app'' p1 \<and> aggregate [] ''app'' p2 = aggregate [] ''app'' p1"
    by (elim exE) (erule that)
  from p have p0: "p = init_page" by simp
  from p p0 have s1: "dispatch ''app'' ''main'' ''a{}'' init_page = Some p1"
    and s2: "dispatch ''app'' ''main'' ''a{}'' p1 = Some p2"
    and s3: "registry ''app'' p2 = registry ''app'' p1" by simp_all
  have a: "aggregate [] ''app'' (the (dispatch ''app'' ''main'' ''a{}'' init_page)) = ''a{}''"
    by (simp add: page_eval object_eval)
  from s1 a have a1: "aggregate [] ''app'' p1 = ''a{}''" by simp
  from p p0 a1 have d1: "dispatched p1 = [Event ''app-styles-request'', CustomEvent ''app-styles'' (Some ''a{}'')]"
    by (simp add: init_page_def styles_key_def request_key_def)
  from p have "dispatched p2 = dispatched p1 @ [Event (request_key ''app''),
                            CustomEvent (styles_key ''app'') (Some (aggregate [] ''app'' p1))]"
    by simp
  with d1 a1 have d2: "dispatched p2 = [Event ''app-styles-request'', CustomEvent ''app-styles'' (Some ''a{}''),
                        Event ''app-styles-request'', CustomEvent ''app-styles'' (Some ''a{}'')]"
    by (simp add: styles_key_def request_key_def)
  show ?thesis
    by (rule exI [where x = p1], rule exI [where x = p2]) (simp add: s1 s2 s3 d1 d2)
qed

text \<open>
  C5. The dispatcher of the first implementation called with the empty text for a
  fragment id never written under the name (with or without a registry for the name)
  returns a page, the text of every style element and the aggregate of the name are
  what they were, and with no registry before the call the aggregate is empty. The call
  still dispatches its request and styles events.
\<close>

theorem remove_unpublished_keeps_styles:
  assumes "i \<notin> fst ` set (writes m h)"
  shows "\<exists>p p'. exec [] h init_page = Some p \<and> dispatch m i [] p = Some p'
           \<and> elements p' = elements p
           \<and> aggregate [] m p' = aggregate [] m p
           \<and> (window p (styles_key m) = None \<longrightarrow> aggregate [] m p' = [])
           \<and> dispatched p' = dispatched p @ [Event (request_key m),
                                 CustomEvent (styles_key m) (Some (aggregate [] m p))]"
proof -
  obtain p where p: "exec [] h init_page = Some p" "good [] p"
    by (rule exec_init)
  from p(2) have wfp: "wf [] p" and syp: "synced [] p" by (simp_all add: good_def)
  let ?p' = "published [] m i [] p"
  have d: "dispatch m i [] p = Some ?p'"
    by (simp add: dispatch_def dispatch_with_published [OF wfp])
  have "set (map fst (registry m p)) \<subseteq> fst ` set (writes m h)"
    unfolding exec_registry_keys [OF p(1)] using stored_subset [of "writes m h"] by auto
  with assms have "i \<notin> fst ` set (registry m p)" by auto
  then have agg: "aggregate [] m ?p' = aggregate [] m p"
    by (simp add: aggregate_def published_registry_same join_Nil_concat concat_values_remove_absent)
  have "\<forall>el \<in> set (subscribers m p). el < length (elements p) \<longrightarrow> elements p ! el = aggregate [] m p"
    using syp unfolding synced_def by blast
  from deliver_same [OF this] have el: "elements ?p' = elements p"
    by (simp add: published_elements agg)
  have "dispatched ?p' = dispatched p @ [Event (request_key m),
                                 CustomEvent (styles_key m) (Some (aggregate [] m p))]"
    by (simp add: published_dispatched agg)
  with p(1) d el agg aggregate_missing [of p m "[]"] show ?thesis by auto
qed

theorem remove_unpublished_keeps_styles_witness:
  "''lazy'' \<notin> fst ` set (writes ''app'' [])
   \<and> (\<exists>p'. dispatch ''app'' ''lazy'' [] init_page = Some p' \<and> window init_page (styles_key ''app'') = None
          \<and> elements p' = [] \<and> aggregate [] ''app'' p' = [])
   \<and> ''lazy'' \<notin> fst ` set (writes ''app'' [Publish ''app'' ''main'' ''a{}'', Subscribe ''app''])
   \<and> (\<exists>p p'. exec [] [Publish ''app'' ''main'' ''a{}'', Subscribe ''app''] init_page = Some p
          \<and> dispatch ''app'' ''lazy'' [] p = Some p'
          \<and> elements p = [''a{}''] \<and> elements p' = [''a{}''] \<and> aggregate [] ''app'' p' = ''a{}'')"
proof -
  let ?h = "[Publish ''app'' ''main'' ''a{}'', Subscribe ''app'']"
  have n0: "''lazy'' \<notin> fst ` set (writes ''app'' [])" by simp
  have n1: "''lazy'' \<notin> fst ` set (writes ''app'' ?h)" by simp
  have w0: "window init_page (styles_key ''app'') = None" by (simp add: init_page_def)
  from remove_unpublished_keeps_styles [OF n0]
  obtain q q' where q: "exec [] [] init_page = Some q \<and> dispatch ''app'' ''lazy'' [] q = Some q'
           \<and> elements q' = elements q
           \<and> aggregate [] ''app'' q' = aggregate [] ''app'' q
           \<and> (window q (styles_key ''app'') = None \<longrightarrow> aggregate [] ''app'' q' = [])
           \<and> dispatched q' = dispatched q @ [Event (request_key ''app''),
                                 CustomEvent (styles_key ''app'') (Some (aggregate [] ''app'' q))]"
    by (elim exE) (erule that)
  from q have q0: "q = init_page" by simp
  from q q0 have f1: "dispatch ''app'' ''lazy'' [] init_page = Some q'" by simp
  from q q0 have f2: "elements q' = []" by (simp add: init_page_def)
  from q q0 w0 have f3: "aggregate [] ''app'' q' = []" by (simp add: aggregate_missing)
  have first: "\<exists>p'. dispatch ''app'' ''lazy'' [] init_page = Some p'
      \<and> window init_page (styles_key ''app'') = None \<and> elements p' = [] \<and> aggregate [] ''app'' p' = []"
    by (rule exI [where x = q']) (simp add: f1 f2 f3 w0)
  have e: "elements (the (exec [] ?h init_page)) = [''a{}'']"
    "aggregate [] ''app'' (the (exec [] ?h init_page)) = ''a{}''"
    by (simp_all add: page_eval object_eval)
  from remove_unpublished_keeps_styles [OF n1]
  obtain p p' where p: "exec [] ?h init_page = Some p \<and> dispatch ''app'' ''lazy'' [] p = Some p'
           \<and> elements p' = elements p
           \<and> aggregate [] ''app'' p' = aggregate [] ''app'' p
           \<and> (window p (styles_key ''app'') = None \<longrightarrow> aggregate [] ''app'' p' = [])
           \<and> dispatched p' = dispatched p @ [Event (request_key ''app''),
                                 CustomEvent (styles_key ''app'') (Some (aggregate [] ''app'' p))]"
    by (elim exE) (erule that)
  note g1 = p [THEN conjunct1] and g2 = p [THEN conjunct2, THEN conjunct1]
  have g3: "elements p = [''a{}'']" and g4: "aggregate [] ''app'' p = ''a{}''"
    using e unfolding g1 by simp_all
  from p [THEN conjunct2, THEN conjunct2, THEN conjunct1] g3 have g5: "elements p' = [''a{}'']"
    by simp
  from p [THEN conjunct2, THEN conjunct2, THEN conjunct2, THEN conjunct1] g4
  have g6: "aggregate [] ''app'' p' = ''a{}''" by simp
  have second: "\<exists>p p'. exec [] ?h init_page = Some p
          \<and> dispatch ''app'' ''lazy'' [] p = Some p'
          \<and> elements p = [''a{}''] \<and> elements p' = [''a{}''] \<and> aggregate [] ''app'' p' = ''a{}''"
    by (rule exI [where x = p], rule exI [where x = p']) (intro conjI g1 g2 g3 g5 g6)
  from n0 first n1 second show ?thesis by (intro conjI)
qed

text \<open>
  C10. A dispatcher call for the name \<open>A\<close>, in either implementation (\<open>dispatch\<close> is
  \<open>dispatch_with []\<close>, \<open>dispatch2\<close> is \<open>dispatch_with [CHR 0x0A]\<close>), leaves the
  registry and the registry slot of every other name as they were and keeps every
  fragment id of the registry of \<open>A\<close>; over any further history the fragment ids of
  every registry only grow.
\<close>

theorem dispatch_touches_own_registry_only:
  "\<exists>p p'. exec sep h init_page = Some p \<and> dispatch_with sep A i s p = Some p'
     \<and> (\<forall>B. B \<noteq> A \<longrightarrow> registry B p' = registry B p
                      \<and> window p' (styles_key B) = window p (styles_key B))
     \<and> fst ` set (registry A p) \<subseteq> fst ` set (registry A p')
     \<and> (\<forall>h' B. \<exists>p''. exec sep (h @ h') init_page = Some p''
                  \<and> fst ` set (registry B p) \<subseteq> fst ` set (registry B p''))"
proof -
  obtain p where p: "exec sep h init_page = Some p" "good sep p"
    by (rule exec_init)
  from p(2) have wfp: "wf sep p" by (simp add: good_def)
  let ?p' = "published sep A i s p"
  have d: "dispatch_with sep A i s p = Some ?p'"
    by (rule dispatch_with_published [OF wfp])
  have frame: "\<forall>B. B \<noteq> A \<longrightarrow> registry B ?p' = registry B p
                      \<and> window ?p' (styles_key B) = window p (styles_key B)"
    by (simp add: published_registry_other [OF wfp] published_window)
  have grow: "fst ` set (registry A p) \<subseteq> fst ` set (registry A ?p')"
    by (simp add: published_registry_same keys_set_prop_grow)
  have later: "\<exists>p''. exec sep (h @ h') init_page = Some p''
                  \<and> fst ` set (registry B p) \<subseteq> fst ` set (registry B p'')" for h' B
  proof -
    from exec_good [OF p(2), of h'] obtain p'' where p'': "exec sep h' p = Some p''" by blast
    from exec_registry [OF p(2) p'', of B] keys_foldl_grow [of "registry B p" "writes B h'"]
    have "fst ` set (registry B p) \<subseteq> fst ` set (registry B p'')" by simp
    with p(1) p'' show ?thesis by (simp add: exec_append)
  qed
  from p(1) d frame grow later show ?thesis by blast
qed

theorem dispatch_touches_own_registry_only_witness:
  "\<exists>p p'. exec [] [Publish ''a'' ''x'' ''1'', Publish ''b'' ''y'' ''2''] init_page = Some p
     \<and> dispatch ''a'' ''z'' ''3'' p = Some p'
     \<and> ''b'' \<noteq> ''a'' \<and> registry ''b'' p' = registry ''b'' p \<and> registry ''b'' p = [(''y'', ''2'')]
     \<and> fst ` set (registry ''a'' p) \<subseteq> fst ` set (registry ''a'' p')
     \<and> registry ''a'' p = [(''x'', ''1'')]"
proof -
  let ?h = "[Publish ''a'' ''x'' ''1'', Publish ''b'' ''y'' ''2'']"
  have ne: "''b'' \<noteq> ''a''" by simp
  have e: "registry ''b'' (the (exec [] ?h init_page)) = [(''y'', ''2'')]"
    "registry ''a'' (the (exec [] ?h init_page)) = [(''x'', ''1'')]"
    by (simp_all add: page_eval object_eval)
  from dispatch_touches_own_registry_only [of "[]" ?h "''a''" "''z''" "''3''"]
  obtain p p' where p: "exec [] ?h init_page = Some p \<and> dispatch_with [] ''a'' ''z'' ''3'' p = Some p'
     \<and> (\<forall>B. B \<noteq> ''a'' \<longrightarrow> registry B p' = registry B p
                      \<and> window p' (styles_key B) = window p (styles_key B))
     \<and> fst ` set (registry ''a'' p) \<subseteq> fst ` set (registry ''a'' p')
     \<and> (\<forall>h' B. \<exists>p''. exec [] (?h @ h') init_page = Some p''
                  \<and> fst ` set (registry B p) \<subseteq> fst ` set (registry B p''))"
    by (elim exE) (erule that)
  note g1 = p [THEN conjunct1]
  from p [THEN conjunct2, THEN conjunct1] have g2: "dispatch ''a'' ''z'' ''3'' p = Some p'"
    by (simp add: dispatch_def)
  from p [THEN conjunct2, THEN conjunct2, THEN conjunct1, THEN spec, of "''b''"] ne
  have g3: "registry ''b'' p' = registry ''b'' p" by simp
  have g4: "registry ''b'' p = [(''y'', ''2'')]" and g5: "registry ''a'' p = [(''x'', ''1'')]"
    using e unfolding g1 by simp_all
  note g6 = p [THEN conjunct2, THEN conjunct2, THEN conjunct2, THEN conjunct1]
  show ?thesis
    by (rule exI [where x = p], rule exI [where x = p']) (intro conjI g1 g2 g3 g4 g5 g6 ne)
qed

section \<open>The claims about the transform stage\<close>

lemmas regex_eval = dot_run_def line_terminator_def link_pattern_def update_pattern_def
  remove_pattern_def replace_first_def strip_links_def transform_def transform2_def
  update_call_def remove_call_def update_call2_def remove_call2_def

lemmas call_eval = rewrite_first_call.simps call_at_def after_call_def line_terminator_def
  update_call_def remove_call_def update_call2_def remove_call2_def

text \<open>
  C4. In a module of the shape the bundler generates, an update-style call followed by a
  remove-style call, the transform puts the dispatcher's text in place of both: applied
  to \<^verbatim>\<open>__vite__id\<close> and \<^verbatim>\<open>__vite__css\<close> where the update-style call was, and
  to \<^verbatim>\<open>__vite__id\<close> and the empty string literal where the remove-style call was.
  Run by the page after any history, with \<^verbatim>\<open>__vite__id\<close> bound to a fragment id, the
  remove call returns the page that the update call returns with \<^verbatim>\<open>__vite__css\<close>
  bound to the empty text, which is the page of the dispatcher call with the empty text:
  the empty text is written under the fragment id in the registry of the name, no other
  registry changes, the request and styles events of a publish are dispatched, and for
  a fragment id already in the registry the key order is unchanged and the values
  differ only by the empty text in the fragment's place.
\<close>

theorem remove_is_publish_with_empty_text:
  assumes "no_replacement_pattern d"
    and "\<not> sublist ''__vite__updateStyle('' (A @ ''__vite__updateStyle'')"
    and "\<not> sublist ''__vite__removeStyle('' (A @ update_call d @ B @ ''__vite__removeStyle'')"
    and "a1 \<noteq> []" and "CHR '')'' \<notin> set a1" and "\<forall>c\<in>set a1. \<not> line_terminator c"
    and "a2 \<noteq> []" and "CHR '')'' \<notin> set a2" and "\<forall>c\<in>set a2. \<not> line_terminator c"
  shows "transform d
           (A @ ''__vite__updateStyle('' @ a1 @ '')'' @ B @ ''__vite__removeStyle('' @ a2 @ '')'' @ C)
           = A @ update_call d @ B @ remove_call d @ C
       \<and> (\<exists>p p'. exec [] h init_page = Some p
             \<and> run_call d m [(''__vite__id'', i)] (remove_call d) p = Some p'
             \<and> run_call d m [(''__vite__id'', i), (''__vite__css'', [])] (update_call d) p = Some p'
             \<and> dispatch m i [] p = Some p'
             \<and> registry m p' = set_prop i [] (registry m p)
             \<and> (\<forall>other. other \<noteq> m \<longrightarrow> registry other p' = registry other p)
             \<and> dispatched p' = dispatched p @ [Event (request_key m),
                                   CustomEvent (styles_key m) (Some (aggregate [] m p'))]
             \<and> (i \<in> fst ` set (registry m p) \<longrightarrow>
                   object_keys (registry m p') = object_keys (registry m p)
                 \<and> object_values (registry m p') =
                     map (\<lambda>k. if k = i then [] else get_prop (registry m p) k)
                       (object_keys (registry m p))))"
proof -
  have rewritten: "transform d
           (A @ ''__vite__updateStyle('' @ a1 @ '')'' @ B @ ''__vite__removeStyle('' @ a2 @ '')'' @ C)
           = A @ update_call d @ B @ remove_call d @ C"
    unfolding transform_def
    by (rule rewrite_both_calls [OF assms(2-9) update_call_verbatim [OF assms(1)]
          remove_call_verbatim [OF assms(1)]])
  obtain p where p: "exec [] h init_page = Some p" "good [] p"
    by (rule exec_init)
  from p(2) have wfp: "wf [] p" by (simp add: good_def)
  let ?p' = "published [] m i [] p"
  have d: "dispatch m i [] p = Some ?p'"
    by (simp add: dispatch_def dispatch_with_published [OF wfp])
  have rr: "run_call d m [(''__vite__id'', i)] (remove_call d) p = Some ?p'"
    unfolding run_remove_call by (rule d)
  have ru: "run_call d m [(''__vite__id'', i), (''__vite__css'', [])] (update_call d) p = Some ?p'"
    unfolding run_update_call by (rule d)
  have r: "registry m ?p' = set_prop i [] (registry m p)"
    by (rule published_registry_same)
  have frame: "\<forall>other. other \<noteq> m \<longrightarrow> registry other ?p' = registry other p"
    by (simp add: published_registry_other [OF wfp])
  have ev: "dispatched ?p' = dispatched p @ [Event (request_key m),
                                   CustomEvent (styles_key m) (Some (aggregate [] m ?p'))]"
    by (rule published_dispatched)
  have order: "object_keys (registry m ?p') = object_keys (registry m p)
                 \<and> object_values (registry m ?p') =
                     map (\<lambda>k. if k = i then [] else get_prop (registry m p) k)
                       (object_keys (registry m p))" if "i \<in> fst ` set (registry m p)"
  proof -
    from that registry_no_proto [OF p(1), of m] have "i \<noteq> ''__proto__''" by metis
    then have "registry m ?p' = put i [] (registry m p)" by (simp add: r set_prop_def)
    with tombstone_keeps_order [OF that] show ?thesis by simp
  qed
  have sem: "\<exists>p p'. exec [] h init_page = Some p
             \<and> run_call d m [(''__vite__id'', i)] (remove_call d) p = Some p'
             \<and> run_call d m [(''__vite__id'', i), (''__vite__css'', [])] (update_call d) p = Some p'
             \<and> dispatch m i [] p = Some p'
             \<and> registry m p' = set_prop i [] (registry m p)
             \<and> (\<forall>other. other \<noteq> m \<longrightarrow> registry other p' = registry other p)
             \<and> dispatched p' = dispatched p @ [Event (request_key m),
                                   CustomEvent (styles_key m) (Some (aggregate [] m p'))]
             \<and> (i \<in> fst ` set (registry m p) \<longrightarrow>
                   object_keys (registry m p') = object_keys (registry m p)
                 \<and> object_values (registry m p') =
                     map (\<lambda>k. if k = i then [] else get_prop (registry m p) k)
                       (object_keys (registry m p)))"
    apply (rule exI [where x = p], rule exI [where x = ?p'])
    apply (intro conjI p(1) rr ru d r frame ev)
    using order by blast
  from rewritten sem show ?thesis by (rule conjI)
qed

theorem remove_is_publish_with_empty_text_witness:
  \<open>no_replacement_pattern dispatch_source
   \<and> transform dispatch_source
        (''import {updateStyle as __vite__updateStyle, removeStyle as __vite__removeStyle} from "/@vite/client"''
         @ [CHR 0x0A] @ ''const __vite__id = "/src/index.css"''
         @ [CHR 0x0A] @ ''const __vite__css = ".x{color:red}"''
         @ [CHR 0x0A] @ ''__vite__updateStyle(__vite__id, __vite__css)''
         @ [CHR 0x0A] @ ''import.meta.hot.accept()''
         @ [CHR 0x0A] @ ''import.meta.hot.prune(() => __vite__removeStyle(__vite__id))'' @ [CHR 0x0A])
     = ''import {updateStyle as __vite__updateStyle, removeStyle as __vite__removeStyle} from "/@vite/client"''
         @ [CHR 0x0A] @ ''const __vite__id = "/src/index.css"''
         @ [CHR 0x0A] @ ''const __vite__css = ".x{color:red}"''
         @ [CHR 0x0A] @ '';('' @ dispatch_source @ '')(__vite__id,__vite__css)''
         @ [CHR 0x0A] @ ''import.meta.hot.accept()''
         @ [CHR 0x0A] @ ''import.meta.hot.prune(() => ('' @ dispatch_source @ '')(__vite__id,''
         @ [CHR 0x27, CHR 0x27] @ ''))'' @ [CHR 0x0A]
   \<and> (\<exists>p p'. exec [] [Publish ''app'' ''a'' ''x{}'', Publish ''app'' ''b'' ''y{}''] init_page = Some p
          \<and> run_call dispatch_source ''app'' [(''__vite__id'', ''a'')] (remove_call dispatch_source) p
                = Some p'
          \<and> run_call dispatch_source ''app'' [(''__vite__id'', ''a''), (''__vite__css'', [])]
                  (update_call dispatch_source) p = Some p'
          \<and> ''a'' \<in> fst ` set (registry ''app'' p)
          \<and> registry ''app'' p = [(''a'', ''x{}''), (''b'', ''y{}'')]
          \<and> object_keys (registry ''app'' p') = object_keys (registry ''app'' p)
          \<and> object_values (registry ''app'' p') = [[], ''y{}''])\<close>
proof -
  let ?A = \<open>''import {updateStyle as __vite__updateStyle, removeStyle as __vite__removeStyle} from "/@vite/client"''
         @ [CHR 0x0A] @ ''const __vite__id = "/src/index.css"''
         @ [CHR 0x0A] @ ''const __vite__css = ".x{color:red}"'' @ [CHR 0x0A]\<close>
  let ?B = "[CHR 0x0A] @ ''import.meta.hot.accept()'' @ [CHR 0x0A] @ ''import.meta.hot.prune(() => ''"
  let ?C = "'')'' @ [CHR 0x0A]"
  let ?a1 = "''__vite__id, __vite__css''" and ?a2 = "''__vite__id''"
  let ?h = "[Publish ''app'' ''a'' ''x{}'', Publish ''app'' ''b'' ''y{}'']"
  have h0: "no_replacement_pattern dispatch_source" by (simp add: dispatch_source_def)
  have h1: "\<not> sublist ''__vite__updateStyle('' (?A @ ''__vite__updateStyle'')"
    by code_simp
  have h2: "\<not> sublist ''__vite__removeStyle('' (?A @ update_call dispatch_source @ ?B @ ''__vite__removeStyle'')"
    by code_simp
  have a1: "?a1 \<noteq> []" "CHR '')'' \<notin> set ?a1" "\<forall>c\<in>set ?a1. \<not> line_terminator c"
    by (simp_all add: line_terminator_def)
  have a2: "?a2 \<noteq> []" "CHR '')'' \<notin> set ?a2" "\<forall>c\<in>set ?a2. \<not> line_terminator c"
    by (simp_all add: line_terminator_def)
  note t = remove_is_publish_with_empty_text [OF h0 h1 h2 a1 a2, of ?C ?h "''app''" "''a''"]
  from t [THEN conjunct1]
  have rewritten: "transform dispatch_source
        (''import {updateStyle as __vite__updateStyle, removeStyle as __vite__removeStyle} from \"/@vite/client\"''
         @ [CHR 0x0A] @ ''const __vite__id = \"/src/index.css\"''
         @ [CHR 0x0A] @ ''const __vite__css = \".x{color:red}\"''
         @ [CHR 0x0A] @ ''__vite__updateStyle(__vite__id, __vite__css)''
         @ [CHR 0x0A] @ ''import.meta.hot.accept()''
         @ [CHR 0x0A] @ ''import.meta.hot.prune(() => __vite__removeStyle(__vite__id))'' @ [CHR 0x0A])
     = ''import {updateStyle as __vite__updateStyle, removeStyle as __vite__removeStyle} from \"/@vite/client\"''
         @ [CHR 0x0A] @ ''const __vite__id = \"/src/index.css\"''
         @ [CHR 0x0A] @ ''const __vite__css = \".x{color:red}\"''
         @ [CHR 0x0A] @ '';('' @ dispatch_source @ '')(__vite__id,__vite__css)''
         @ [CHR 0x0A] @ ''import.meta.hot.accept()''
         @ [CHR 0x0A] @ ''import.meta.hot.prune(() => ('' @ dispatch_source @ '')(__vite__id,''
         @ [CHR 0x27, CHR 0x27] @ ''))'' @ [CHR 0x0A]"
    by (simp add: update_call_def remove_call_def)
  from t [THEN conjunct2]
  obtain p p' where p: "exec [] ?h init_page = Some p
             \<and> run_call dispatch_source ''app'' [(''__vite__id'', ''a'')] (remove_call dispatch_source) p
                   = Some p'
             \<and> run_call dispatch_source ''app'' [(''__vite__id'', ''a''), (''__vite__css'', [])]
                   (update_call dispatch_source) p = Some p'
             \<and> dispatch ''app'' ''a'' [] p = Some p'
             \<and> registry ''app'' p' = set_prop ''a'' [] (registry ''app'' p)
             \<and> (\<forall>other. other \<noteq> ''app'' \<longrightarrow> registry other p' = registry other p)
             \<and> dispatched p' = dispatched p @ [Event (request_key ''app''),
                                   CustomEvent (styles_key ''app'') (Some (aggregate [] ''app'' p'))]
             \<and> (''a'' \<in> fst ` set (registry ''app'' p) \<longrightarrow>
                   object_keys (registry ''app'' p') = object_keys (registry ''app'' p)
                 \<and> object_values (registry ''app'' p') =
                     map (\<lambda>k. if k = ''a'' then [] else get_prop (registry ''app'' p) k)
                       (object_keys (registry ''app'' p)))"
    by (elim exE) (erule that)
  note g1 = p [THEN conjunct1] and g2 = p [THEN conjunct2, THEN conjunct1]
    and g2' = p [THEN conjunct2, THEN conjunct2, THEN conjunct1]
  have e: "registry ''app'' (the (exec [] ?h init_page)) = [(''a'', ''x{}''), (''b'', ''y{}'')]"
    by (simp add: page_eval object_eval)
  have g3: "registry ''app'' p = [(''a'', ''x{}''), (''b'', ''y{}'')]"
    using e unfolding g1 by simp
  then have g4: "''a'' \<in> fst ` set (registry ''app'' p)" by simp
  from p [THEN conjunct2, THEN conjunct2, THEN conjunct2, THEN conjunct2, THEN conjunct2,
      THEN conjunct2, THEN conjunct2, THEN mp, OF g4]
  have g5: "object_keys (registry ''app'' p') = object_keys (registry ''app'' p)"
    and g6': "object_values (registry ''app'' p') =
                     map (\<lambda>k. if k = ''a'' then [] else get_prop (registry ''app'' p) k)
                       (object_keys (registry ''app'' p))"
    by simp_all
  have g6: "object_values (registry ''app'' p') = [[], ''y{}'']"
    unfolding g6' g3 by (simp add: object_eval)
  have sem: "\<exists>p p'. exec [] ?h init_page = Some p
          \<and> run_call dispatch_source ''app'' [(''__vite__id'', ''a'')] (remove_call dispatch_source) p
                = Some p'
          \<and> run_call dispatch_source ''app'' [(''__vite__id'', ''a''), (''__vite__css'', [])]
                  (update_call dispatch_source) p = Some p'
          \<and> ''a'' \<in> fst ` set (registry ''app'' p)
          \<and> registry ''app'' p = [(''a'', ''x{}''), (''b'', ''y{}'')]
          \<and> object_keys (registry ''app'' p') = object_keys (registry ''app'' p)
          \<and> object_values (registry ''app'' p') = [[], ''y{}'']"
    by (rule exI [where x = p], rule exI [where x = p']) (intro conjI g1 g2 g2' g3 g4 g5 g6)
  from h0 rewritten sem show ?thesis by (intro conjI)
qed

text \<open>
  C9 (as amended). For every module code, the transform of either implementation is the
  rewrite of the first update-style call expression followed by the rewrite of the
  first remove-style call expression of the result. The first
  \<^verbatim>\<open>__vite__updateStyle(\<close> that is followed, on the same line, by one character and
  then a closing parenthesis is replaced, up to the first closing parenthesis behind
  that character, by the dispatcher's text applied to the fixed argument text
  \<^verbatim>\<open>__vite__id,__vite__css\<close>, whatever the argument text of the replaced call was, and
  likewise the first \<^verbatim>\<open>__vite__removeStyle(\<close> by the dispatcher's text applied to
  \<^verbatim>\<open>__vite__id,''\<close> (after the literal name in the second implementation). Nothing
  else changes: not a later call, and not a module without such a call. The
  dispatcher's text and the name are taken without the replacement patterns
  \<^verbatim>\<open>$$\<close>, \<^verbatim>\<open>$&\<close>, \<^verbatim>\<open>$`\<close> and \<^verbatim>\<open>$'\<close>, as the text of the source is.
\<close>

theorem transform_rewrites_first_calls:
  assumes "no_replacement_pattern d" and "no_replacement_pattern d2"
    and "no_replacement_pattern (''`'' @ name @ ''`'')"
  shows "transform d code
           = rewrite_first_call ''__vite__removeStyle('' (remove_call d)
               (rewrite_first_call ''__vite__updateStyle('' (update_call d) code)
       \<and> transform2 d2 name code
           = rewrite_first_call ''__vite__removeStyle('' (remove_call2 d2 name)
               (rewrite_first_call ''__vite__updateStyle('' (update_call2 d2 name) code)"
  unfolding transform_def transform2_def update_pattern_def remove_pattern_def
  by (simp only: replace_first_is_rewrite_first_call
        update_call_verbatim [OF assms(1)] remove_call_verbatim [OF assms(1)]
        update_call2_verbatim [OF assms(2,3)] remove_call2_verbatim [OF assms(2,3)])

theorem transform_rewrites_first_calls_witness:
  \<open>no_replacement_pattern dispatch_source \<and> no_replacement_pattern dispatch_source2
   \<and> no_replacement_pattern (''`'' @ ''app'' @ ''`'')
   \<and> transform dispatch_source
        (''import {updateStyle as __vite__updateStyle, removeStyle as __vite__removeStyle} from "/@vite/client"''
         @ [CHR 0x0A] @ ''const __vite__id = "/src/index.css"''
         @ [CHR 0x0A] @ ''const __vite__css = ".x{color:red}"''
         @ [CHR 0x0A] @ ''__vite__updateStyle(__vite__id, __vite__css)''
         @ [CHR 0x0A] @ ''import.meta.hot.accept()''
         @ [CHR 0x0A] @ ''import.meta.hot.prune(() => __vite__removeStyle(__vite__id))'' @ [CHR 0x0A])
     = ''import {updateStyle as __vite__updateStyle, removeStyle as __vite__removeStyle} from "/@vite/client"''
         @ [CHR 0x0A] @ ''const __vite__id = "/src/index.css"''
         @ [CHR 0x0A] @ ''const __vite__css = ".x{color:red}"''
         @ [CHR 0x0A] @ '';('' @ dispatch_source @ '')(__vite__id,__vite__css)''
         @ [CHR 0x0A] @ ''import.meta.hot.accept()''
         @ [CHR 0x0A] @ ''import.meta.hot.prune(() => ('' @ dispatch_source @ '')(__vite__id,''
         @ [CHR 0x27, CHR 0x27] @ ''))'' @ [CHR 0x0A]
   \<and> transform2 dispatch_source2 ''app''
        (''import {updateStyle as __vite__updateStyle, removeStyle as __vite__removeStyle} from "/@vite/client"''
         @ [CHR 0x0A] @ ''const __vite__id = "/src/index.css"''
         @ [CHR 0x0A] @ ''const __vite__css = ".x{color:red}"''
         @ [CHR 0x0A] @ ''__vite__updateStyle(__vite__id, __vite__css)''
         @ [CHR 0x0A] @ ''import.meta.hot.accept()''
         @ [CHR 0x0A] @ ''import.meta.hot.prune(() => __vite__removeStyle(__vite__id))'' @ [CHR 0x0A])
     = ''import {updateStyle as __vite__updateStyle, removeStyle as __vite__removeStyle} from "/@vite/client"''
         @ [CHR 0x0A] @ ''const __vite__id = "/src/index.css"''
         @ [CHR 0x0A] @ ''const __vite__css = ".x{color:red}"''
         @ [CHR 0x0A] @ '';('' @ dispatch_source2 @ '')(`app`,__vite__id,__vite__css)''
         @ [CHR 0x0A] @ ''import.meta.hot.accept()''
         @ [CHR 0x0A] @ ''import.meta.hot.prune(() => ('' @ dispatch_source2 @ '')(`app`,__vite__id,''
         @ [CHR 0x27, CHR 0x27] @ ''))'' @ [CHR 0x0A]
   \<and> transform dispatch_source ''export default 1'' = ''export default 1''
   \<and> transform ''D'' ''x;__vite__updateStyle();foo(1);y'' = ''x;;(D)(__vite__id,__vite__css);y''\<close>
proof -
  let ?code = \<open>''import {updateStyle as __vite__updateStyle, removeStyle as __vite__removeStyle} from "/@vite/client"''
         @ [CHR 0x0A] @ ''const __vite__id = "/src/index.css"''
         @ [CHR 0x0A] @ ''const __vite__css = ".x{color:red}"''
         @ [CHR 0x0A] @ ''__vite__updateStyle(__vite__id, __vite__css)''
         @ [CHR 0x0A] @ ''import.meta.hot.accept()''
         @ [CHR 0x0A] @ ''import.meta.hot.prune(() => __vite__removeStyle(__vite__id))'' @ [CHR 0x0A]\<close>
  have h1: "no_replacement_pattern dispatch_source" by (simp add: dispatch_source_def)
  have h2: "no_replacement_pattern dispatch_source2" by (simp add: dispatch_source2_def)
  have h3: "no_replacement_pattern (''`'' @ ''app'' @ ''`'')" by simp
  have h4: "no_replacement_pattern ''D''" by simp
  note t = transform_rewrites_first_calls [OF h1 h2 h3]
  have g1: "transform dispatch_source ?code
     = ''import {updateStyle as __vite__updateStyle, removeStyle as __vite__removeStyle} from \"/@vite/client\"''
         @ [CHR 0x0A] @ ''const __vite__id = \"/src/index.css\"''
         @ [CHR 0x0A] @ ''const __vite__css = \".x{color:red}\"''
         @ [CHR 0x0A] @ '';('' @ dispatch_source @ '')(__vite__id,__vite__css)''
         @ [CHR 0x0A] @ ''import.meta.hot.accept()''
         @ [CHR 0x0A] @ ''import.meta.hot.prune(() => ('' @ dispatch_source @ '')(__vite__id,''
         @ [CHR 0x27, CHR 0x27] @ ''))'' @ [CHR 0x0A]"
    unfolding t [of ?code, THEN conjunct1] by code_simp
  have g2: "transform2 dispatch_source2 ''app'' ?code
     = ''import {updateStyle as __vite__updateStyle, removeStyle as __vite__removeStyle} from \"/@vite/client\"''
         @ [CHR 0x0A] @ ''const __vite__id = \"/src/index.css\"''
         @ [CHR 0x0A] @ ''const __vite__css = \".x{color:red}\"''
         @ [CHR 0x0A] @ '';('' @ dispatch_source2 @ '')(`app`,__vite__id,__vite__css)''
         @ [CHR 0x0A] @ ''import.meta.hot.accept()''
         @ [CHR 0x0A] @ ''import.meta.hot.prune(() => ('' @ dispatch_source2 @ '')(`app`,__vite__id,''
         @ [CHR 0x27, CHR 0x27] @ ''))'' @ [CHR 0x0A]"
    unfolding t [of ?code, THEN conjunct2] by code_simp
  have g3: "transform dispatch_source ''export default 1'' = ''export default 1''"
    unfolding t [of "''export default 1''", THEN conjunct1]
    by (simp add: call_eval)
  have g4: "transform ''D'' ''x;__vite__updateStyle();foo(1);y'' = ''x;;(D)(__vite__id,__vite__css);y''"
    unfolding transform_rewrites_first_calls [OF h4 h2 h3, of "''x;__vite__updateStyle();foo(1);y''",
        THEN conjunct1]
    by (simp add: call_eval)
  from h1 h2 h3 g1 g2 g3 g4 show ?thesis by (intro conjI)
qed

text \<open>
  C9 as stated fails: of two update-style calls only the first is rewritten, and its
  own arguments are not kept. The same happens in the module the bundler generates for
  a CSS text that itself contains an update-style call: the text inside the string
  constant is rewritten, and the call of the module is left as it was.
\<close>

theorem transform_second_call_counterexample:
  \<open>transform ''D'' ''__vite__updateStyle(a, b);__vite__updateStyle(c, d)''
     = '';(D)(__vite__id,__vite__css);__vite__updateStyle(c, d)''
   \<and> sublist ''__vite__updateStyle(c, d)''
        (transform ''D'' ''__vite__updateStyle(a, b);__vite__updateStyle(c, d)'')
   \<and> \<not> sublist ''a, b'' (transform ''D'' ''__vite__updateStyle(a, b);__vite__updateStyle(c, d)'')
   \<and> transform ''D''
        (''const __vite__css = ".c:after{content:'' @ [CHR 0x5C] @ ''"__vite__updateStyle(a)''
         @ [CHR 0x5C] @ ''"}"'' @ [CHR 0x0A] @ ''__vite__updateStyle(__vite__id, __vite__css)'')
     = ''const __vite__css = ".c:after{content:'' @ [CHR 0x5C] @ ''";(D)(__vite__id,__vite__css)''
         @ [CHR 0x5C] @ ''"}"'' @ [CHR 0x0A] @ ''__vite__updateStyle(__vite__id, __vite__css)''\<close>
  by (simp add: regex_eval sublist_code)

section \<open>The claims about the bundle rewrite stage\<close>

lemmas bundle_eval = generateBundle_def generateBundle2_def rewrite_bundle_def inline_css_def
  ends_with_def suffix_to_prefix appended_call_def appended_call2_def css_literal_def trim_def
  white_space_def escape_backticks_def is_asset_def imported_sources_def

text \<open>
  C6 (as amended). The rewrite replaces the source of every HTML asset by the source
  with the matches of the link pattern removed. The pattern works line by line: a match
  never extends over a line terminator. A link tag of the generated shape, with a
  relative \<^verbatim>\<open>./\<close> href ending in \<^verbatim>\<open>.css\<close> as its last attribute, that is alone on
  its line behind text without \<^verbatim>\<open><\<close>, is removed whole. A source, or by the line
  rule a line, that nowhere contains \<^verbatim>\<open>href="./\<close> is left as it is; this covers a
  line whose link tags all have absolute or external hrefs.
\<close>

theorem strip_links_by_line:
  \<open>(\<not> sublist ''href="./'' src \<longrightarrow> strip_links src = src)
   \<and> ((\<forall>c\<in>set line. \<not> line_terminator c) \<and> line_terminator lt \<longrightarrow>
        strip_links (line @ lt # rest) = strip_links line @ lt # strip_links rest)
   \<and> (CHR ''<'' \<notin> set pre \<and> attrs \<noteq> [] \<and> path \<noteq> []
        \<and> (\<forall>c\<in>set (attrs @ path). \<not> line_terminator c \<and> c \<noteq> CHR ''>'') \<longrightarrow>
        strip_links (pre @ ''<link'' @ attrs @ ''href="./'' @ path @ ''.css">'') = pre)
   \<and> ((\<forall>c\<in>set outs. ends_with (fileName c) ''.html'' \<or> ends_with (fileName c) ''.css''
             \<longrightarrow> is_asset c) \<longrightarrow>
        (\<exists>outs'. generateBundle dc outs = Some outs' \<and> length outs' = length outs
           \<and> (\<forall>k<length outs. \<forall>f src. outs ! k = OutputAsset f src \<longrightarrow> ends_with f ''.html''
                 \<longrightarrow> outs' ! k = OutputAsset f (strip_links src))))\<close>
  using strip_links_no_local_href [of src] strip_links_line [of line lt rest]
    strip_links_tag [of pre attrs path] html_assets_stripped [of outs dc]
  by blast

theorem strip_links_by_line_witness:
  \<open>\<not> sublist ''href="./'' ''<link rel="icon" href="https://cdn.example/x.ico">''
   \<and> strip_links ''<link rel="icon" href="https://cdn.example/x.ico">''
       = ''<link rel="icon" href="https://cdn.example/x.ico">''
   \<and> strip_links (''<link rel="icon" href="https://cdn.example/x.ico">'' @ [CHR 0x0A]
                   @ ''  <link rel="stylesheet" crossorigin href="./assets/a.css">'')
       = ''<link rel="icon" href="https://cdn.example/x.ico">'' @ [CHR 0x0A] @ ''  ''
   \<and> (\<exists>outs'. generateBundle ''f(args)''
                  [OutputAsset ''index.html'' ''<link rel="icon" href="https://cdn.example/x.ico">'']
                = Some outs'
              \<and> outs' ! 0 = OutputAsset ''index.html'' ''<link rel="icon" href="https://cdn.example/x.ico">'')\<close>
proof -
  let ?ext = \<open>''<link rel="icon" href="https://cdn.example/x.ico">''\<close>
  let ?pre = "''  ''" and ?attrs = \<open>'' rel="stylesheet" crossorigin ''\<close> and ?path = "''assets/a''"
  let ?outs = "[OutputAsset ''index.html'' ?ext]"
  note t = strip_links_by_line [of ?ext ?ext "CHR 0x0A"
      \<open>''  <link rel="stylesheet" crossorigin href="./assets/a.css">''\<close> ?pre ?attrs ?path ?outs "''f(args)''"]
  have h1: \<open>\<not> sublist ''href="./'' ?ext\<close> by (simp add: sublist_code)
  from t [THEN conjunct1, THEN mp, OF h1] have g1: "strip_links ?ext = ?ext" .
  have h2: "(\<forall>c\<in>set ?ext. \<not> line_terminator c) \<and> line_terminator (CHR 0x0A)"
    by (simp add: line_terminator_def)
  note g2 = t [THEN conjunct2, THEN conjunct1, THEN mp, OF h2]
  have h3: "CHR ''<'' \<notin> set ?pre \<and> ?attrs \<noteq> [] \<and> ?path \<noteq> []
        \<and> (\<forall>c\<in>set (?attrs @ ?path). \<not> line_terminator c \<and> c \<noteq> CHR ''>'')"
    by (simp add: line_terminator_def)
  from t [THEN conjunct2, THEN conjunct2, THEN conjunct1, THEN mp, OF h3]
  have g3: \<open>strip_links ''  <link rel="stylesheet" crossorigin href="./assets/a.css">'' = ''  ''\<close>
    by simp
  have g4: \<open>strip_links (?ext @ [CHR 0x0A] @ ''  <link rel="stylesheet" crossorigin href="./assets/a.css">'')
       = ?ext @ [CHR 0x0A] @ ''  ''\<close>
    using g2 unfolding g1 g3 by simp
  have h4: "\<forall>c\<in>set ?outs. ends_with (fileName c) ''.html'' \<or> ends_with (fileName c) ''.css''
             \<longrightarrow> is_asset c"
    by (simp add: is_asset_def)
  from t [THEN conjunct2, THEN conjunct2, THEN conjunct2, THEN mp, OF h4]
  obtain outs' where o: "generateBundle ''f(args)'' ?outs = Some outs' \<and> length outs' = length ?outs
           \<and> (\<forall>k<length ?outs. \<forall>f src. ?outs ! k = OutputAsset f src \<longrightarrow> ends_with f ''.html''
                 \<longrightarrow> outs' ! k = OutputAsset f (strip_links src))"
    by (elim exE) (erule that)
  have html: "ends_with ''index.html'' ''.html''" by (simp add: ends_with_def suffix_to_prefix)
  from o [THEN conjunct2, THEN conjunct2, THEN spec, of 0] html
  have "outs' ! 0 = OutputAsset ''index.html'' (strip_links ?ext)" by simp
  then have g5: "outs' ! 0 = OutputAsset ''index.html'' ?ext" unfolding g1 .
  have g6: "\<exists>outs'. generateBundle ''f(args)'' ?outs = Some outs'
              \<and> outs' ! 0 = OutputAsset ''index.html'' ?ext"
    by (rule exI [where x = outs']) (intro conjI o [THEN conjunct1] g5)
  from h1 g1 g4 g6 show ?thesis by (intro conjI)
qed

text \<open>
  C6 as stated fails in both directions: an external link in front of a local one on
  the same line is removed with it, and a local link with an attribute behind the href
  is kept.
\<close>

theorem external_link_removed_counterexample:
  \<open>generateBundle ''f(args)''
     [OutputAsset ''index.html''
        ''<link rel="icon" href="https://cdn.example/x.ico"><link rel="stylesheet" href="./a.css">'']
     = Some [OutputAsset ''index.html'' []]
   \<and> generateBundle ''f(args)''
     [OutputAsset ''index.html''
        ''<link rel="icon" href="https://cdn.example/x.ico"><link rel="stylesheet" href="./a.css">'']
     \<noteq> Some [OutputAsset ''index.html'' ''<link rel="icon" href="https://cdn.example/x.ico">'']
   \<and> generateBundle ''f(args)''
     [OutputAsset ''index.html'' ''<link rel="stylesheet" href="./a.css" crossorigin>'']
     = Some [OutputAsset ''index.html'' ''<link rel="stylesheet" href="./a.css" crossorigin>'']\<close>
  by (simp add: bundle_eval regex_eval)

text \<open>
  C7. The claim asks that the template literal the CSS is spliced into evaluates back to
  the CSS. The code escapes backticks only. For the CSS of an icon font, whose content
  is written with a backslash escape, the spliced text is the CSS unchanged, and the
  literal that the chunk then carries evaluates to a different text: the backslash and
  the letter behind it have become a form feed.
\<close>

theorem css_literal_keeps_backslash:
  \<open>css_literal (''.i:before{content:"'' @ [CHR 0x5C] @ ''f101"}'')
     = ''.i:before{content:"'' @ [CHR 0x5C] @ ''f101"}''
   \<and> template_value (css_literal (''.i:before{content:"'' @ [CHR 0x5C] @ ''f101"}''))
     = Some (map of_char (''.i:before{content:"'' @ [CHR 0x0C] @ ''101"}''))
   \<and> generateBundle ''f(args)''
       [OutputAsset ''a.css'' (''.i:before{content:"'' @ [CHR 0x5C] @ ''f101"}''),
        OutputChunk ''main.js'' ''main'' ''code'' (Some [''a.css''])]
     = Some [OutputAsset ''a.css'' (''.i:before{content:"'' @ [CHR 0x5C] @ ''f101"}''),
             OutputChunk ''main.js'' ''main''
               (''code'' @ [CHR 0x0A] @ '';f(`main`,`.i:before{content:"'' @ [CHR 0x5C] @ ''f101"}`)'')
               (Some [])]\<close>
  by (simp add: bundle_eval regex_eval is_digit_def)




end
